theory Spec2Isabelle
  imports Main
begin

section \<open>Text and the regular expressions of Python's \<open>re\<close> module\<close>

text \<open>
  The scripts work on Python \<open>str\<close> values with the \<open>re\<close> module. A text is modelled
  as a \<open>string\<close> whose characters are the code points below 256; on that range the
  classes \<open>\d\<close>, \<open>\s\<close> and \<open>\w\<close> of a \<open>str\<close> pattern and \<open>str.lower\<close> are as
  defined here. Every pattern of the scripts is compiled with \<open>re.IGNORECASE\<close>, so a
  literal character is compared after lower-casing.
\<close>

definition is_digit :: "char \<Rightarrow> bool" where
  "is_digit c = (c \<in> set ''0123456789'')"

definition is_space :: "char \<Rightarrow> bool" where
  "is_space c = (let n = (of_char c :: nat) in
     (9 \<le> n \<and> n \<le> 13) \<or> (28 \<le> n \<and> n \<le> 32) \<or> n = 133 \<or> n = 160)"

definition is_word :: "char \<Rightarrow> bool" where
  "is_word c = (let n = (of_char c :: nat) in
     (48 \<le> n \<and> n \<le> 57) \<or> (65 \<le> n \<and> n \<le> 90) \<or> n = 95 \<or> (97 \<le> n \<and> n \<le> 122)
     \<or> n = 170 \<or> n = 178 \<or> n = 179 \<or> n = 181 \<or> n = 185 \<or> n = 186
     \<or> (188 \<le> n \<and> n \<le> 190) \<or> (192 \<le> n \<and> n \<le> 214) \<or> (216 \<le> n \<and> n \<le> 246)
     \<or> 248 \<le> n)"

definition lower_char :: "char \<Rightarrow> char" where
  "lower_char c = (let n = (of_char c :: nat) in
     if (65 \<le> n \<and> n \<le> 90) \<or> (192 \<le> n \<and> n \<le> 222 \<and> n \<noteq> 215)
     then char_of (n + 32) else c)"

definition lower :: "string \<Rightarrow> string" where
  "lower s = map lower_char s"

text \<open>
  The pattern language, as far as the scripts use it: literals, classes, sequence,
  alternation, greedy and lazy repetition, lookahead, a one-character negative
  lookbehind and \<open>$\<close> (without \<open>re.MULTILINE\<close>). None of the patterns modelled has a
  capturing group that is read, except \<open>Eqn(\d+)\<close>, handled where it is used.
\<close>

datatype regex =
    Eps
  | Chr char
  | Sat "char \<Rightarrow> bool"
  | Seq regex regex
  | Alt regex regex
  | Star regex
  | LazyStar regex
  | Ahead regex
  | NotAhead regex
  | NotBehind "char \<Rightarrow> bool"
  | Eol

text \<open>
  A cursor is a position in the text: the characters before it, nearest first, and
  the characters from it on.
\<close>

type_synonym cursor = "string \<times> string"

text \<open>
  \<open>ms r c\<close> lists the cursors at which a match of \<open>r\<close> begun at \<open>c\<close> can end, in
  the order in which the backtracking matcher of \<open>re\<close> tries them: the first one is
  the match it reports. An iteration of a repetition that consumes nothing is not
  repeated.
\<close>

fun ms :: "regex \<Rightarrow> cursor \<Rightarrow> cursor list" where
  "ms Eps st = [st]"
| "ms (Chr c) (pre, rest) =
     (case rest of [] \<Rightarrow> []
      | x # xs \<Rightarrow> if lower_char x = lower_char c then [(x # pre, xs)] else [])"
| "ms (Sat P) (pre, rest) =
     (case rest of [] \<Rightarrow> [] | x # xs \<Rightarrow> if P x then [(x # pre, xs)] else [])"
| "ms (Seq a b) st = concat (map (ms b) (ms a st))"
| "ms (Alt a b) st = ms a st @ ms b st"
| "ms (Star a) st =
     concat (map (ms (Star a))
       (filter (\<lambda>st'. length (snd st') < length (snd st)) (ms a st))) @ [st]"
| "ms (LazyStar a) st =
     st # concat (map (ms (LazyStar a))
       (filter (\<lambda>st'. length (snd st') < length (snd st)) (ms a st)))"
| "ms (Ahead a) st = (if ms a st = [] then [] else [st])"
| "ms (NotAhead a) st = (if ms a st = [] then [st] else [])"
| "ms (NotBehind P) (pre, rest) =
     (case pre of [] \<Rightarrow> [(pre, rest)] | x # _ \<Rightarrow> if P x then [] else [(pre, rest)])"
| "ms Eol (pre, rest) = (if rest = [] \<or> rest = [CHR 0x0A] then [(pre, rest)] else [])"

text \<open>The two repetition equations call themselves, so they are unfolded by hand.\<close>

declare ms.simps(6) [simp del] ms.simps(7) [simp del]

fun lit :: "string \<Rightarrow> regex" where
  "lit [] = Eps"
| "lit [c] = Chr c"
| "lit (c # cs) = Seq (Chr c) (lit cs)"

definition opt :: "regex \<Rightarrow> regex" where
  "opt r = Alt r Eps"

definition plus :: "regex \<Rightarrow> regex" where
  "plus r = Seq r (Star r)"

fun seqs :: "regex list \<Rightarrow> regex" where
  "seqs [] = Eps"
| "seqs [r] = r"
| "seqs (r # rs) = Seq r (seqs rs)"

text \<open>
  One match attempt at a cursor. With \<open>adv\<close> set (the scan has just reported an
  empty match here) an empty match is refused, as \<open>re\<close> does.
\<close>

definition first_match :: "regex \<Rightarrow> bool \<Rightarrow> cursor \<Rightarrow> cursor option" where
  "first_match r adv st =
     find (\<lambda>st'. \<not> adv \<or> length (snd st') < length (snd st)) (ms r st)"

lemma ms_consumes:
  "(pre', rest') \<in> set (ms r (pre, rest)) \<Longrightarrow>
     \<exists>m. rest = m @ rest' \<and> pre' = rev m @ pre"
proof (induction r "(pre, rest)" arbitrary: pre rest pre' rest' rule: ms.induct)
  case (4 a b)
  from "4.prems" obtain p1 r1 where
    mid: "(p1, r1) \<in> set (ms a (pre, rest))" and fin: "(pre', rest') \<in> set (ms b (p1, r1))"
    by auto
  from "4.hyps"(1)[OF mid] obtain m1 where m1: "rest = m1 @ r1" "p1 = rev m1 @ pre"
    by blast
  from "4.hyps"(2)[OF mid fin] obtain m2 where m2: "r1 = m2 @ rest'" "pre' = rev m2 @ p1"
    by blast
  have "rest = (m1 @ m2) @ rest' \<and> pre' = rev (m1 @ m2) @ pre"
    using m1 m2 by simp
  then show ?case by blast
next
  case (6 a)
  show ?case
  proof (cases "(pre', rest') = (pre, rest)")
    case True
    then have "rest = [] @ rest' \<and> pre' = rev [] @ pre" by simp
    then show ?thesis by blast
  next
    case False
    from "6.prems" have "(pre', rest') \<in> set (concat (map (ms (Star a))
        (filter (\<lambda>st'. length (snd st') < length (snd (pre, rest))) (ms a (pre, rest)))) @
        [(pre, rest)])"
      by (simp only: ms.simps(6))
    with False obtain p1 r1 where
      mid: "(p1, r1) \<in> set (ms a (pre, rest))" and shorter: "length r1 < length rest"
      and fin: "(pre', rest') \<in> set (ms (Star a) (p1, r1))"
      by auto
    from "6.hyps"(1)[OF mid] obtain m1 where m1: "rest = m1 @ r1" "p1 = rev m1 @ pre"
      by blast
    have "(p1, r1) \<in> set (filter (\<lambda>st'. length (snd st') < length (snd (pre, rest)))
        (ms a (pre, rest)))"
      using mid shorter by simp
    from "6.hyps"(2)[OF this fin] obtain m2 where
      m2: "r1 = m2 @ rest'" "pre' = rev m2 @ p1"
      by blast
    have "rest = (m1 @ m2) @ rest' \<and> pre' = rev (m1 @ m2) @ pre"
      using m1 m2 by simp
    then show ?thesis by blast
  qed
next
  case (7 a)
  show ?case
  proof (cases "(pre', rest') = (pre, rest)")
    case True
    then have "rest = [] @ rest' \<and> pre' = rev [] @ pre" by simp
    then show ?thesis by blast
  next
    case False
    from "7.prems" have "(pre', rest') \<in> set ((pre, rest) # concat (map (ms (LazyStar a))
        (filter (\<lambda>st'. length (snd st') < length (snd (pre, rest))) (ms a (pre, rest)))))"
      by (simp only: ms.simps(7))
    with False obtain p1 r1 where
      mid: "(p1, r1) \<in> set (ms a (pre, rest))" and shorter: "length r1 < length rest"
      and fin: "(pre', rest') \<in> set (ms (LazyStar a) (p1, r1))"
      by auto
    from "7.hyps"(1)[OF mid] obtain m1 where m1: "rest = m1 @ r1" "p1 = rev m1 @ pre"
      by blast
    have "(p1, r1) \<in> set (filter (\<lambda>st'. length (snd st') < length (snd (pre, rest)))
        (ms a (pre, rest)))"
      using mid shorter by simp
    from "7.hyps"(2)[OF this fin] obtain m2 where
      m2: "r1 = m2 @ rest'" "pre' = rev m2 @ p1"
      by blast
    have "rest = (m1 @ m2) @ rest' \<and> pre' = rev (m1 @ m2) @ pre"
      using m1 m2 by simp
    then show ?thesis by blast
  qed
next
  case 1
  then show ?case by simp
next
  case (2 c)
  then show ?case by (auto split: list.splits if_splits)
next
  case (3 P)
  then show ?case by (auto split: list.splits if_splits)
next
  case (5 a b)
  then show ?case by auto
next
  case (8 a)
  then show ?case by (simp split: if_splits)
next
  case (9 a)
  then show ?case by (simp split: if_splits)
next
  case (10 P)
  then show ?case by (auto split: list.splits if_splits)
next
  case 11
  then show ?case by (simp split: if_splits)
qed

lemma find_Some_mem: "find P xs = Some x \<Longrightarrow> x \<in> set xs \<and> P x"
  by (induction xs) (auto split: if_splits)

lemma first_match_consumes:
  assumes "first_match r adv (pre, rest) = Some (pre', rest')"
  shows "\<exists>m. rest = m @ rest' \<and> pre' = rev m @ pre \<and> (adv \<longrightarrow> m \<noteq> [])"
proof -
  from find_Some_mem[OF assms[unfolded first_match_def]]
  have mem: "(pre', rest') \<in> set (ms r (pre, rest))"
    and ok: "\<not> adv \<or> length rest' < length rest"
    by simp_all
  from ms_consumes[OF mem] obtain m where m: "rest = m @ rest'" "pre' = rev m @ pre"
    by blast
  from ok m have "adv \<longrightarrow> m \<noteq> []" by auto
  with m show ?thesis by blast
qed


subsection \<open>Scanning a text: \<open>finditer\<close>, \<open>findall\<close>, \<open>search\<close> and \<open>sub\<close>\<close>

text \<open>
  \<open>scan\<close> is the loop shared by \<open>re.finditer\<close>, \<open>re.findall\<close> and \<open>re.sub\<close>: try a
  match at the cursor; on success report it and go on behind it, otherwise move one
  character on. It returns the text cut into (unmatched gap, match) pairs and the
  unmatched tail. \<open>pre\<close> is the text before the cursor (reversed), \<open>gap\<close> the unmatched
  characters since the last match (reversed).
\<close>

function scan :: "regex \<Rightarrow> bool \<Rightarrow> string \<Rightarrow> string \<Rightarrow> string \<Rightarrow> (string \<times> string) list \<times> string" where
  "scan r adv pre gap rest =
     (case first_match r adv (pre, rest) of
        Some (pre', rest') \<Rightarrow>
          (let m = take (length rest - length rest') rest;
               (segs, tail) = scan r (m = []) pre' [] rest'
           in ((rev gap, m) # segs, tail))
      | None \<Rightarrow>
          (case rest of
             [] \<Rightarrow> ([], rev gap)
           | x # xs \<Rightarrow> scan r False (x # pre) (x # gap) xs))"
  by pat_completeness auto
termination
proof (relation "measure (\<lambda>(r, adv, pre, gap, rest). 2 * length rest + (if adv then 0 else 1))",
    goal_cases)
  case 1
  show ?case by simp
next
  case (2 r adv pre gap rest x xs)
  then show ?case by simp
next
  case (3 r adv pre gap rest x2 pre' rest' m)
  from first_match_consumes[of r adv pre rest pre' rest'] 3
  obtain m0 where m0: "rest = m0 @ rest'" "adv \<longrightarrow> m0 \<noteq> []"
    by auto
  with 3 have "m = m0" by simp
  with m0 show ?case by (cases m0) auto
qed

declare scan.simps [simp del]

definition segments :: "regex \<Rightarrow> string \<Rightarrow> (string \<times> string) list \<times> string" where
  "segments r text = scan r False [] [] text"

text \<open>\<open>pattern.findall(text)\<close> for a pattern without capturing groups: the matched texts.\<close>

definition re_findall :: "regex \<Rightarrow> string \<Rightarrow> string list" where
  "re_findall r text = map snd (fst (segments r text))"

text \<open>
  \<open>pattern.finditer(text)\<close>: of each match its \<open>start()\<close>, \<open>end()\<close> and \<open>group()\<close>.
\<close>

fun spans_from :: "nat \<Rightarrow> (string \<times> string) list \<Rightarrow> (nat \<times> nat \<times> string) list" where
  "spans_from off [] = []"
| "spans_from off ((g, m) # segs) =
     (off + length g, off + length g + length m, m) #
       spans_from (off + length g + length m) segs"

definition re_finditer :: "regex \<Rightarrow> string \<Rightarrow> (nat \<times> nat \<times> string) list" where
  "re_finditer r text = spans_from 0 (fst (segments r text))"

text \<open>\<open>re.search(pattern, text)\<close>: the first match, if any.\<close>

definition re_search :: "regex \<Rightarrow> string \<Rightarrow> string option" where
  "re_search r text = (case fst (segments r text) of [] \<Rightarrow> None | (g, m) # _ \<Rightarrow> Some m)"

text \<open>
  \<open>pattern.sub(repl, text)\<close> with a function \<open>repl\<close>: the matches are replaced from left
  to right by what \<open>repl\<close> returns for them. The functions passed by the scripts
  update counters, so \<open>repl\<close> takes and returns a state.
\<close>

fun sub_segs :: "('s \<Rightarrow> string \<Rightarrow> string \<times> 's) \<Rightarrow> 's \<Rightarrow> (string \<times> string) list \<Rightarrow> string \<Rightarrow> string \<times> 's" where
  "sub_segs repl st [] tail = (tail, st)"
| "sub_segs repl st ((g, m) # segs) tail =
     (let (new, st') = repl st m;
          (out, st'') = sub_segs repl st' segs tail
      in (g @ new @ out, st''))"

definition re_sub :: "regex \<Rightarrow> ('s \<Rightarrow> string \<Rightarrow> string \<times> 's) \<Rightarrow> 's \<Rightarrow> string \<Rightarrow> string \<times> 's" where
  "re_sub r repl st text = (case segments r text of (segs, tail) \<Rightarrow> sub_segs repl st segs tail)"

text \<open>The text put together again from its gaps, what stands for each match, and its tail.\<close>

fun weave :: "string list \<Rightarrow> string list \<Rightarrow> string \<Rightarrow> string" where
  "weave (g # gs) (m # reps) tail = g @ m @ weave gs reps tail"
| "weave _ _ tail = tail"

lemma scan_text:
  "scan r adv pre gap rest = (segs, tail) \<Longrightarrow>
     weave (map fst segs) (map snd segs) tail = rev gap @ rest"
proof (induction r adv pre gap rest arbitrary: segs tail rule: scan.induct)
  case (1 r adv pre gap rest)
  show ?case
  proof (cases "first_match r adv (pre, rest)")
    case None
    show ?thesis
    proof (cases rest)
      case Nil
      with None "1.prems" show ?thesis by (simp add: scan.simps)
    next
      case (Cons x xs)
      with None "1.prems" have "scan r False (x # pre) (x # gap) xs = (segs, tail)"
        by (simp add: scan.simps)
      from "1.IH"(1)[OF None Cons this] Cons show ?thesis by simp
    qed
  next
    case (Some c)
    obtain pre' rest' where c: "c = (pre', rest')" by (cases c)
    from first_match_consumes[of r adv pre rest pre' rest'] Some c
    obtain m where m: "rest = m @ rest'" by auto
    obtain segs' tail' where rec: "scan r (m = []) pre' [] rest' = (segs', tail')"
      by (cases "scan r (m = []) pre' [] rest'")
    have tk: "take (length rest - length rest') rest = m" using m by simp
    have "scan r adv pre gap rest = ((rev gap, m) # segs', tail')"
      by (simp only: scan.simps[of r adv pre gap rest] Some c option.case prod.case
          Let_def tk rec)
    with "1.prems" have res: "segs = (rev gap, m) # segs'" "tail = tail'"
      by simp_all
    from "1.IH"(2)[OF Some c[symmetric] tk[symmetric]] rec
    have "weave (map fst segs') (map snd segs') tail' = rest'" by simp
    with res m show ?thesis by simp
  qed
qed

lemma segments_text:
  "segments r text = (segs, tail) \<Longrightarrow> weave (map fst segs) (map snd segs) tail = text"
  using scan_text[of r False "[]" "[]" "text" segs tail] by (simp add: segments_def)


subsection \<open>String helpers of Python used by the scripts\<close>

definition startswith :: "string \<Rightarrow> string \<Rightarrow> bool" where
  "startswith s p = (take (length p) s = p)"

definition endswith :: "string \<Rightarrow> string \<Rightarrow> bool" where
  "endswith s p = (length p \<le> length s \<and> drop (length s - length p) s = p)"

text \<open>\<open>sub in s\<close>.\<close>

fun contains :: "string \<Rightarrow> string \<Rightarrow> bool" where
  "contains sub [] = (sub = [])"
| "contains sub (c # cs) = (startswith (c # cs) sub \<or> contains sub cs)"

text \<open>\<open>sep.join(parts)\<close>.\<close>

fun join :: "string \<Rightarrow> string list \<Rightarrow> string" where
  "join sep [] = []"
| "join sep [p] = p"
| "join sep (p # ps) = p @ sep @ join sep ps"

text \<open>
  \<open>s.encode('utf-8', 'replace')\<close> on code points below 256 (none of them is a
  surrogate, so nothing is replaced); bytes are characters again.
\<close>

definition utf8_char :: "char \<Rightarrow> string" where
  "utf8_char c = (let n = (of_char c :: nat) in
     if n < 128 then [c] else [char_of (192 + n div 64), char_of (128 + n mod 64)])"

definition encode :: "string \<Rightarrow> string" where
  "encode s = concat (map utf8_char s)"

text \<open>\<open>content.replace(old, new, 1)\<close>: the first occurrence only.\<close>

fun replace_first :: "string \<Rightarrow> string \<Rightarrow> string \<Rightarrow> string" where
  "replace_first old new [] = (if old = [] then new else [])"
| "replace_first old new (c # cs) =
     (if startswith (c # cs) old then new @ drop (length old) (c # cs)
      else c # replace_first old new cs)"

text \<open>\<open>content.replace(old, new)\<close>: every occurrence, left to right, without overlap.\<close>

function replace_all :: "string \<Rightarrow> string \<Rightarrow> string \<Rightarrow> string" where
  "replace_all old new s =
     (if old = [] then concat (map (\<lambda>c. new @ [c]) s) @ new
      else if s = [] then []
      else if startswith s old then new @ replace_all old new (drop (length old) s)
      else hd s # replace_all old new (tl s))"
  by pat_completeness auto
termination
  by (relation "measure (\<lambda>(old, new, s). length s)") auto

declare replace_all.simps [simp del]

section \<open>The placeholder grammar\<close>

text \<open>
  The patterns of \<open>eqn_restoration_v4_final.py\<close>, in the order of the source:
  \<^verbatim>\<open><<Eqn\d+(?:\.eps)?>>(?:,)?\<close> (well-formed), the four damaged patterns
  \<^verbatim>\<open>(?<!<)Eqn\d+(?:\.eps)?>>(?:,)?\<close>, \<^verbatim>\<open><<Eqn\d+(?:\.eps)?(?!>>)\<close>,
  \<^verbatim>\<open><\s+<Eqn\d+(?:\.eps)?>\s*>\<close>, \<^verbatim>\<open><<Eqn\d+(?:\.eps)?>>>+(?:,)?\<close>,
  the number pattern \<^verbatim>\<open>Eqn(\d+)\<close>, and the pattern of the rewrite
  \<^verbatim>\<open>(?:<<|<\s*<|(?<!\w))Eqn\d+(?:\.eps)?(?:>>|>\s*>|(?=\W)|$)(?:[,>\s]*)?\<close>.
\<close>

definition correct_pattern :: regex where
  "correct_pattern =
     seqs [lit ''<<Eqn'', plus (Sat is_digit), opt (lit ''.eps''), lit ''>>'', opt (lit '','')]"

definition damaged_patterns :: "regex list" where
  "damaged_patterns =
     [seqs [NotBehind (\<lambda>c. c = CHR ''<''), lit ''Eqn'', plus (Sat is_digit), opt (lit ''.eps''),
            lit ''>>'', opt (lit '','')],
      seqs [lit ''<<Eqn'', plus (Sat is_digit), opt (lit ''.eps''), NotAhead (lit ''>>'')],
      seqs [lit ''<'', plus (Sat is_space), lit ''<Eqn'', plus (Sat is_digit), opt (lit ''.eps''),
            lit ''>'', Star (Sat is_space), lit ''>''],
      seqs [lit ''<<Eqn'', plus (Sat is_digit), opt (lit ''.eps''), lit ''>>'', plus (lit ''>''),
            opt (lit '','')]]"

definition eqn_number_pattern :: regex where
  "eqn_number_pattern = seqs [lit ''Eqn'', plus (Sat is_digit)]"

definition comprehensive_pattern :: regex where
  "comprehensive_pattern =
     seqs [Alt (lit ''<<'') (Alt (seqs [lit ''<'', Star (Sat is_space), lit ''<''])
             (NotBehind is_word)),
           lit ''Eqn'', plus (Sat is_digit), opt (lit ''.eps''),
           Alt (lit ''>>'') (Alt (seqs [lit ''>'', Star (Sat is_space), lit ''>''])
             (Alt (Ahead (Sat (\<lambda>c. \<not> is_word c))) Eol)),
           opt (Star (Sat (\<lambda>c. c \<in> set '',>'' \<or> is_space c)))]"

text \<open>
  The patterns of \<open>5. eqn_restoration_batch.py\<close>:
  \<^verbatim>\<open><<Eqn\d+(?:\.eps)?>>(?:,)?\<close>, \<^verbatim>\<open>(?:<{1,2})?Eqn\d+(?:\.eps)?(?:>{1,2})?(?:,)?\<close>,
  \<^verbatim>\<open><<Eqn\d+(?:\.eps)?>>\<close> and \<^verbatim>\<open>[<\\>,\s]*?Eqn\d+(?:\.eps)?[<\\>,\s]*\<close>.
\<close>

definition pattern_placeholder :: regex where
  "pattern_placeholder =
     seqs [lit ''<<Eqn'', plus (Sat is_digit), opt (lit ''.eps''), lit ''>>'', opt (lit '','')]"

definition pattern_damaged :: regex where
  "pattern_damaged =
     seqs [opt (Seq (lit ''<'') (opt (lit ''<''))), lit ''Eqn'', plus (Sat is_digit),
           opt (lit ''.eps''), opt (Seq (lit ''>'') (opt (lit ''>''))), opt (lit '','')]"

definition pattern_strict :: regex where
  "pattern_strict = seqs [lit ''<<Eqn'', plus (Sat is_digit), opt (lit ''.eps''), lit ''>>'']"

definition robust_class :: "char \<Rightarrow> bool" where
  "robust_class c = (c \<in> {CHR ''<'', CHR 0x5C, CHR ''>'', CHR '',''} \<or> is_space c)"

definition pattern_robust :: regex where
  "pattern_robust =
     seqs [LazyStar (Sat robust_class), lit ''Eqn'', plus (Sat is_digit), opt (lit ''.eps''),
           Star (Sat robust_class)]"


section \<open>Documents\<close>

text \<open>
  What the scripts see of a \<open>python-docx\<close> document: the body paragraphs, the
  tables (rows of cells of paragraphs) and, per section, the paragraphs and tables of
  its header and of its footer. The type parameter is what stands at each place: the
  text of the paragraph for a script that only reads \<open>para.text\<close> (a \<open>document\<close>; a
  paragraph that stands at several places is its text at each of them), the
  paragraph object for a script that assigns to \<open>para.text\<close> (an \<open>opened_document\<close>).
\<close>

type_synonym 'p cell = "'p list"
type_synonym 'p row = "'p cell list"
type_synonym 'p table = "'p row list"

record 'p header_footer =
  hf_paragraphs :: "'p list"
  hf_tables :: "'p table list"

record 'p doc_section =
  header :: "'p header_footer"
  footer :: "'p header_footer"

record 'p docx =
  paragraphs :: "'p list"
  tables :: "'p table list"
  sections :: "'p doc_section list"

type_synonym document = "string docx"

text \<open>
  A document opened for rewriting. \<open>para_texts\<close> is the text of every paragraph object
  (what \<open>para.text\<close> returns, and what an assignment to it changes); \<open>places\<close> tells
  which paragraph object \<open>python-docx\<close> hands out at each place. One object can stand
  at several places: \<open>row.cells\<close> lists a merged cell once per grid column it spans,
  and a header or footer linked to the previous section hands out the paragraphs of
  that section's header or footer.
\<close>

record opened_document =
  para_texts :: "string list"
  places :: "nat docx"

section \<open>\<open>eqn_restoration_v4_final.py\<close>\<close>

subsection \<open>\<open>extract_placeholders_list\<close> and its scanner \<open>extract_from_text\<close>\<close>

text \<open>The overlap test of the inner loop, against every occurrence found so far.\<close>

definition overlaps_found :: "nat \<Rightarrow> nat \<Rightarrow> (nat \<times> nat \<times> string) list \<Rightarrow> bool" where
  "overlaps_found start stop found =
     list_ex (\<lambda>(existing_start, existing_end, _).
       \<not> (stop \<le> existing_start \<or> start \<ge> existing_end)) found"

text \<open>
  The repair of one damaged match: \<open>None\<close> when \<open>Eqn(\d+)\<close> is not found in it, in
  which case nothing is appended.
\<close>

definition fix_damaged :: "string \<Rightarrow> string option" where
  "fix_damaged original =
     (case re_search eqn_number_pattern original of
        None \<Rightarrow> None
      | Some eqn_match \<Rightarrow>
          (let num = drop 3 eqn_match;
               has_eps = contains ''.eps'' (lower original);
               has_comma = endswith original '','';
               fixed = (if has_eps then ''<<Eqn'' @ num @ ''.eps>>'' else ''<<Eqn'' @ num @ ''>>'');
               fixed = (if has_comma then take (length fixed - 2) fixed @ '',>>'' else fixed)
           in Some fixed))"

fun add_damaged :: "(nat \<times> nat \<times> string) list \<Rightarrow> (nat \<times> nat \<times> string) list \<Rightarrow> (nat \<times> nat \<times> string) list" where
  "add_damaged found [] = found"
| "add_damaged found ((start, stop, original) # rest_matches) =
     (if overlaps_found start stop found then add_damaged found rest_matches
      else (case fix_damaged original of
              None \<Rightarrow> add_damaged found rest_matches
            | Some fixed \<Rightarrow> add_damaged (found @ [(start, stop, fixed)]) rest_matches))"

text \<open>\<open>found_placeholders\<close> after \<open>found_placeholders.sort(key=lambda x: x[0])\<close>.\<close>

definition found_placeholders :: "string \<Rightarrow> (nat \<times> nat \<times> string) list" where
  "found_placeholders text =
     sort_key fst
       (foldl (\<lambda>found pattern. add_damaged found (re_finditer pattern text))
          (re_finditer correct_pattern text) damaged_patterns)"

definition extract_from_text :: "string \<Rightarrow> string list" where
  "extract_from_text text =
     (if text = [] then [] else map (\<lambda>(_, _, placeholder). placeholder) (found_placeholders text))"

text \<open>
  \<open>extract_placeholders_list\<close>; \<open>None\<close> is a document that \<open>Document(doc_path)\<close> cannot
  open, for which the empty list is returned.
\<close>

definition v4_extract_placeholders_list :: "document option \<Rightarrow> string list" where
  "v4_extract_placeholders_list d =
     (case d of
        None \<Rightarrow> []
      | Some document \<Rightarrow>
          (let placeholders = foldl (\<lambda>acc para. acc @ extract_from_text para) []
                 (paragraphs document);
               placeholders = foldl (\<lambda>acc table. foldl (\<lambda>acc row. foldl (\<lambda>acc cell.
                   foldl (\<lambda>acc para. acc @ extract_from_text para) acc cell) acc row) acc table)
                 placeholders (tables document);
               placeholders = foldl (\<lambda>acc section.
                   foldl (\<lambda>acc para. acc @ extract_from_text para)
                     (foldl (\<lambda>acc para. acc @ extract_from_text para) acc
                        (hf_paragraphs (header section)))
                     (hf_paragraphs (footer section)))
                 placeholders (sections document)
           in placeholders))"

subsection \<open>\<open>process_document\<close>\<close>

text \<open>
  The state of the rewrite is \<open>placeholder_index\<close> and
  \<open>stats['placeholders_replaced']\<close>.
\<close>

definition replace_placeholder :: "string list \<Rightarrow> nat \<times> nat \<Rightarrow> string \<Rightarrow> string \<times> (nat \<times> nat)" where
  "replace_placeholder original_placeholders st matched =
     (case st of (placeholder_index, replaced) \<Rightarrow>
        if placeholder_index < length original_placeholders
        then (original_placeholders ! placeholder_index, (placeholder_index + 1, replaced + 1))
        else (matched, (placeholder_index + 1, replaced)))"

definition process_text :: "string list \<Rightarrow> nat \<times> nat \<Rightarrow> string \<Rightarrow> string \<times> (nat \<times> nat)" where
  "process_text original_placeholders st text =
     (if text = [] then (text, st)
      else re_sub comprehensive_pattern (replace_placeholder original_placeholders) st text)"

text \<open>
  The loops of \<open>process_document\<close> carry the texts of the paragraph objects next to
  the two counters. A paragraph of the body or of a table cell is rewritten when its
  text is not empty and contains \<open>Eqn\<close>, and assigned when the new text differs.
\<close>

definition process_body_para :: "string list \<Rightarrow> string list \<times> (nat \<times> nat) \<Rightarrow> nat \<Rightarrow> string list \<times> (nat \<times> nat)" where
  "process_body_para original_placeholders state para =
     (case state of (texts, st) \<Rightarrow>
        if texts ! para \<noteq> [] \<and> contains ''Eqn'' (texts ! para)
        then (let original_text = texts ! para;
                  (new_text, st') = process_text original_placeholders st (texts ! para)
              in if new_text \<noteq> original_text then (texts[para := new_text], st')
                 else (texts, st'))
        else (texts, st))"

text \<open>A paragraph of a header or footer: assigned whenever it is rewritten.\<close>

definition process_hf_para :: "string list \<Rightarrow> string list \<times> (nat \<times> nat) \<Rightarrow> nat \<Rightarrow> string list \<times> (nat \<times> nat)" where
  "process_hf_para original_placeholders state para =
     (case state of (texts, st) \<Rightarrow>
        if texts ! para \<noteq> [] \<and> contains ''Eqn'' (texts ! para)
        then (let (new_text, st') = process_text original_placeholders st (texts ! para)
              in (texts[para := new_text], st'))
        else (texts, st))"

text \<open>
  The three loops, from \<open>placeholder_index = 0\<close>: body paragraphs, tables, then per
  section the header paragraphs and the footer paragraphs. A paragraph object that
  stands at two places is read and rewritten at both, the second time with the text
  the first rewrite gave it.
\<close>

definition process_parts :: "string list \<Rightarrow> opened_document \<Rightarrow> opened_document \<times> (nat \<times> nat)" where
  "process_parts original_placeholders document =
     (let state = foldl (process_body_para original_placeholders) (para_texts document, (0, 0))
            (paragraphs (places document));
          state = foldl (\<lambda>state table. foldl (\<lambda>state row. foldl (\<lambda>state cell.
              foldl (process_body_para original_placeholders) state cell) state row) state table)
            state (tables (places document));
          state = foldl (\<lambda>state section.
              foldl (process_hf_para original_placeholders)
                (foldl (process_hf_para original_placeholders) state
                   (hf_paragraphs (header section)))
                (hf_paragraphs (footer section)))
            state (sections (places document))
      in (document\<lparr>para_texts := fst state\<rparr>, snd state))"

datatype v4_message =
    OpenFailed
  | NoOriginalPath
  | NoOriginalPlaceholders
  | ReplacedOf nat nat nat

record v4_result =
  v4_success :: bool
  v4_message :: v4_message
  v4_saved :: "opened_document option"

text \<open>
  \<open>process_document(doc_path, output_path, original_doc_path)\<close>. The translated
  document is \<open>None\<close> when it cannot be opened; the original, which is only read, is
  \<open>None\<close> when no path is given and \<open>Some None\<close> when its file cannot be opened.
  \<open>v4_saved\<close> is the document written to \<open>output_path\<close>; saving is taken to succeed.
  The message of a success carries the three counters of \<open>stats\<close>: replaced, found in
  the translation, found in the original.
\<close>

definition v4_process_document :: "opened_document option \<Rightarrow> document option option \<Rightarrow> v4_result" where
  "v4_process_document doc original_doc =
     (case doc of
        None \<Rightarrow> \<lparr>v4_success = False, v4_message = OpenFailed, v4_saved = None\<rparr>
      | Some document \<Rightarrow>
          (case original_doc of
             None \<Rightarrow> \<lparr>v4_success = False, v4_message = NoOriginalPath, v4_saved = None\<rparr>
           | Some original \<Rightarrow>
               (let original_placeholders = v4_extract_placeholders_list original in
                if original_placeholders = []
                then \<lparr>v4_success = False, v4_message = NoOriginalPlaceholders, v4_saved = None\<rparr>
                else (case process_parts original_placeholders document of
                        (document', (placeholder_index, replaced)) \<Rightarrow>
                          \<lparr>v4_success = True,
                           v4_message = ReplacedOf replaced placeholder_index
                             (length original_placeholders),
                           v4_saved = Some document'\<rparr>))))"

section \<open>\<open>5. eqn_restoration_batch.py\<close>\<close>

subsection \<open>\<open>find_and_fix_damaged_placeholders\<close>\<close>

text \<open>
  The state of \<open>fix_placeholder\<close> is the list \<open>fixes\<close> of (original, fixed, location);
  \<open>fixed_count\<close> is its length.
\<close>

definition fix_placeholder :: "string \<Rightarrow> (string \<times> string \<times> string) list \<Rightarrow> string \<Rightarrow> string \<times> (string \<times> string \<times> string) list" where
  "fix_placeholder para_info fixes original =
     (case re_search eqn_number_pattern original of
        None \<Rightarrow> (original, fixes)
      | Some num_match \<Rightarrow>
          (let num = drop 3 num_match in
           if \<not> startswith original ''<<'' \<or> \<not> endswith original ''>>''
           then (let correct = (if contains ''.eps'' (lower original)
                                then ''<<Eqn'' @ num @ ''.eps>>'' else ''<<Eqn'' @ num @ ''>>'');
                     correct = (if endswith original '','' then correct @ '','' else correct)
                 in if original \<noteq> correct
                    then (correct, fixes @ [(original, correct, para_info)])
                    else (original, fixes))
           else (original, fixes)))"

definition find_and_fix_damaged_placeholders :: "string \<Rightarrow> string \<Rightarrow> string \<times> nat \<times> (string \<times> string \<times> string) list" where
  "find_and_fix_damaged_placeholders text para_info =
     (case re_sub pattern_damaged (fix_placeholder para_info) [] text of
        (fixed_text, fixes) \<Rightarrow> (fixed_text, length fixes, fixes))"

subsection \<open>\<open>_get_all_text_from_docx\<close>\<close>

text \<open>The list \<open>full_text\<close> when the three loops are through.\<close>

definition full_text :: "document \<Rightarrow> string list" where
  "full_text document =
     (let full_text = foldl (\<lambda>acc para. acc @ [para]) [] (paragraphs document);
          full_text = foldl (\<lambda>acc table. foldl (\<lambda>acc row. foldl (\<lambda>acc cell.
              foldl (\<lambda>acc para. acc @ [para]) acc cell) acc row) acc table)
            full_text (tables document);
          full_text = foldl (\<lambda>acc section.
              foldl (\<lambda>acc para. acc @ [para])
                (foldl (\<lambda>acc para. acc @ [para]) acc (hf_paragraphs (header section)))
                (hf_paragraphs (footer section)))
            full_text (sections document)
      in full_text)"

definition get_all_text_from_docx :: "document option \<Rightarrow> string option" where
  "get_all_text_from_docx d =
     (case d of None \<Rightarrow> None | Some document \<Rightarrow> Some (join [CHR 0x0A] (full_text document)))"

subsection \<open>\<open>process_document\<close>\<close>

text \<open>
  The replacement loop on the raw bytes of the translated file. \<open>None\<close> is the
  \<open>IndexError\<close> of \<open>original_placeholders[i]\<close>.
\<close>

fun patch_loop :: "string list \<Rightarrow> nat \<Rightarrow> string list \<Rightarrow> string \<Rightarrow> string option" where
  "patch_loop original_placeholders i [] binary_content = Some binary_content"
| "patch_loop original_placeholders i (placeholder_to_replace # more_found) binary_content =
     (if i < length original_placeholders
      then patch_loop original_placeholders (i + 1) more_found
             (replace_first (encode placeholder_to_replace)
                (encode (original_placeholders ! i)) binary_content)
      else None)"

datatype batch_message =
    OriginalUnreadable
  | TranslationUnreadable
  | NothingFoundCopied
  | ExtrasRemoved nat
  | MismatchStopped nat nat
  | ReplacedCount nat
  | CriticalError

datatype batch_print =
    WarnNoOriginalRemoving nat
  | WarnMismatch nat nat
  | ForceModeOn

record batch_result =
  success :: bool
  message :: batch_message
  written :: "string option"
  printed :: "batch_print list"

text \<open>
  \<open>process_document(doc_path, output_path, original_doc_path, fix_damaged,
  force_mode)\<close>. The two documents are \<open>None\<close> when \<open>_get_all_text_from_docx\<close> cannot
  read them; \<open>binary_content\<close> is what \<open>open(doc_path, 'rb').read()\<close> returns, and
  \<open>written\<close> the bytes written to \<open>output_path\<close> (reading and writing the raw file are
  taken to succeed). The messages are the returned texts, with the counts they
  name: \<open>MismatchStopped a b\<close> is the text that names \<open>a\<close> placeholders in the original
  against \<open>b\<close> in the translation and says that processing was stopped. \<open>printed\<close> are
  the warnings written to the console.
\<close>

definition batch_process_document :: "document option \<Rightarrow> document option \<Rightarrow> string \<Rightarrow> bool \<Rightarrow> batch_result" where
  "batch_process_document original_doc doc binary_content force_mode =
     (case get_all_text_from_docx original_doc of
        None \<Rightarrow> \<lparr>success = False, message = OriginalUnreadable, written = None, printed = []\<rparr>
      | Some original_text \<Rightarrow>
          (let original_placeholders = re_findall pattern_strict original_text in
           case get_all_text_from_docx doc of
             None \<Rightarrow>
               \<lparr>success = False, message = TranslationUnreadable, written = None, printed = []\<rparr>
           | Some translation_text \<Rightarrow>
               (let translation_placeholders_found = re_findall pattern_robust translation_text in
                if original_placeholders = [] then
                  (if translation_placeholders_found = []
                   then \<lparr>success = True, message = NothingFoundCopied,
                         written = Some binary_content, printed = []\<rparr>
                   else \<lparr>success = True,
                         message = ExtrasRemoved (length translation_placeholders_found),
                         written = Some (foldl (\<lambda>content placeholder_to_remove.
                             replace_all (encode placeholder_to_remove) [] content)
                           binary_content translation_placeholders_found),
                         printed =
                           [WarnNoOriginalRemoving (length translation_placeholders_found)]\<rparr>)
                else if length original_placeholders \<noteq> length translation_placeholders_found
                        \<and> \<not> force_mode
                then \<lparr>success = False,
                      message = MismatchStopped (length original_placeholders)
                        (length translation_placeholders_found),
                      written = None, printed = []\<rparr>
                else
                  (let mismatch =
                         (length original_placeholders \<noteq> length translation_placeholders_found);
                       out = (if mismatch
                              then [WarnMismatch (length original_placeholders)
                                      (length translation_placeholders_found), ForceModeOn]
                              else []);
                       translation_placeholders_found =
                         (if mismatch
                          then take (length original_placeholders) translation_placeholders_found
                          else translation_placeholders_found)
                   in case patch_loop original_placeholders 0 translation_placeholders_found
                             binary_content of
                        None \<Rightarrow> \<lparr>success = False, message = CriticalError, written = None,
                                 printed = out\<rparr>
                      | Some content \<Rightarrow>
                          \<lparr>success = True, message = ReplacedCount (length original_placeholders),
                           written = Some content, printed = out\<rparr>))))"

section \<open>\<open>deepl_translator.py\<close>: the traversal of \<open>clean_translated_docx\<close>\<close>

text \<open>
  The loops that call \<open>process_paragraph\<close> on the paragraphs of the document, with
  \<open>process_paragraph\<close> and what it accumulates as parameters.
\<close>

definition visit_tables :: "('a \<Rightarrow> string \<Rightarrow> 'a) \<Rightarrow> 'a \<Rightarrow> string table list \<Rightarrow> 'a" where
  "visit_tables process_paragraph acc ts =
     foldl (\<lambda>acc table. foldl (\<lambda>acc row. foldl (\<lambda>acc cell.
       foldl process_paragraph acc cell) acc row) acc table) acc ts"

definition clean_translated_docx_visit :: "('a \<Rightarrow> string \<Rightarrow> 'a) \<Rightarrow> 'a \<Rightarrow> document \<Rightarrow> 'a" where
  "clean_translated_docx_visit process_paragraph acc document =
     (let acc = foldl process_paragraph acc (paragraphs document);
          acc = visit_tables process_paragraph acc (tables document);
          acc = foldl (\<lambda>acc section.
              (let acc = foldl process_paragraph acc (hf_paragraphs (header section));
                   acc = visit_tables process_paragraph acc (hf_tables (header section));
                   acc = foldl process_paragraph acc (hf_paragraphs (footer section));
                   acc = visit_tables process_paragraph acc (hf_tables (footer section))
               in acc))
            acc (sections document)
      in acc)"

section \<open>Vocabulary of the properties\<close>

text \<open>
  What stands in place of the matches of a text when the rewrite reaches it with
  \<open>placeholder_index = i\<close>: the entries of the original from \<open>i\<close> on, and the match
  itself where the original has no entry left.
\<close>

fun chosen :: "string list \<Rightarrow> nat \<Rightarrow> string list \<Rightarrow> string list" where
  "chosen orig i [] = []"
| "chosen orig i (m # more_matches) =
     (if i < length orig then orig ! i else m) # chosen orig (Suc i) more_matches"

text \<open>
  The paragraphs of the tables of a list, in document order: tables first to last,
  rows top to bottom, cells left to right, paragraphs top to bottom.
\<close>

definition table_order :: "'p table list \<Rightarrow> 'p list" where
  "table_order ts = concat (concat (concat ts))"

text \<open>
  The order of the two restorers: body, tables, then section by section the header
  paragraphs followed by the footer paragraphs.
\<close>

definition restorer_order :: "'p docx \<Rightarrow> 'p list" where
  "restorer_order d =
     paragraphs d @ table_order (tables d) @
     concat (map (\<lambda>s. hf_paragraphs (header s) @ hf_paragraphs (footer s)) (sections d))"

text \<open>
  The order of \<open>clean_translated_docx\<close>: as before, with the tables of a header
  behind its paragraphs and the tables of a footer behind its paragraphs.
\<close>

definition cleaner_order :: "'p docx \<Rightarrow> 'p list" where
  "cleaner_order d =
     paragraphs d @ table_order (tables d) @
     concat (map (\<lambda>s. hf_paragraphs (header s) @ table_order (hf_tables (header s)) @
                       hf_paragraphs (footer s) @ table_order (hf_tables (footer s)))
               (sections d))"

text \<open>A document whose only section has a table in its header.\<close>

definition doc_header_table :: document where
  "doc_header_table =
     \<lparr>paragraphs = [''body''], tables = [],
      sections = [\<lparr>header = \<lparr>hf_paragraphs = [''head''], hf_tables = [[[[''<<Eqn1>>'']]]]\<rparr>,
                   footer = \<lparr>hf_paragraphs = [''foot''], hf_tables = []\<rparr>\<rparr>]\<rparr>"

text \<open>
  The canonical sequence and the candidate sequence as
  \<open>5. eqn_restoration_batch.py\<close> computes them, and the byte-level plan it applies:
  pair \<open>i\<close> replaces the first occurrence of the bytes of candidate \<open>i\<close> by the bytes
  of original placeholder \<open>i\<close>.
\<close>

definition batch_canonical :: "document \<Rightarrow> string list" where
  "batch_canonical original = re_findall pattern_strict (join [CHR 0x0A] (full_text original))"

definition batch_candidates :: "document \<Rightarrow> string list" where
  "batch_candidates translated = re_findall pattern_robust (join [CHR 0x0A] (full_text translated))"

definition apply_plan :: "(string \<times> string) list \<Rightarrow> string \<Rightarrow> string" where
  "apply_plan plan binary_content =
     foldl (\<lambda>content (old, new). replace_first (encode old) (encode new) content)
       binary_content plan"

definition strip_all :: "string list \<Rightarrow> string \<Rightarrow> string" where
  "strip_all extras binary_content =
     foldl (\<lambda>content extra. replace_all (encode extra) [] content) binary_content extras"

text \<open>A document of one body paragraph.\<close>

definition one_paragraph :: "string \<Rightarrow> document" where
  "one_paragraph para = \<lparr>paragraphs = [para], tables = [], sections = []\<rparr>"

text \<open>\<open>s.find(old)\<close>: where \<open>old\<close> first occurs in \<open>s\<close>.\<close>

fun first_at :: "string \<Rightarrow> string \<Rightarrow> nat option" where
  "first_at old [] = (if old = [] then Some 0 else None)"
| "first_at old (c # cs) =
     (if startswith (c # cs) old then Some 0 else map_option Suc (first_at old cs))"

text \<open>
  The precondition of the byte-level strategy. The file is \<open>g\<^sub>0 c\<^sub>0 g\<^sub>1 c\<^sub>1 \<dots>\<close>:
  the bytes of the candidates in order, with gaps between them. \<open>lands done gaps
  found orig\<close> says that at every step the bytes of the candidate first occur, in what
  has been patched so far followed by the next gap and the candidate, at the
  candidate's own position.
\<close>

fun lands :: "string \<Rightarrow> string list \<Rightarrow> string list \<Rightarrow> string list \<Rightarrow> bool" where
  "lands done (g # gaps) (c # found) (p # orig) =
     (first_at (encode c) (done @ g @ encode c) = Some (length (done @ g))
      \<and> lands (done @ g @ encode p) gaps found orig)"
| "lands done _ _ _ = True"

text \<open>A document opened with one body paragraph.\<close>

definition one_object :: "string \<Rightarrow> opened_document" where
  "one_object para =
     \<lparr>para_texts = [para], places = \<lparr>paragraphs = [0], tables = [], sections = []\<rparr>\<rparr>"

text \<open>
  The text blocks of an opened document, in the order in which the loops of
  \<open>process_document\<close> reach them; the text of a paragraph object that stands at two
  places appears twice.
\<close>

definition blocks :: "opened_document \<Rightarrow> string list" where
  "blocks doc = map (\<lambda>para. para_texts doc ! para) (restorer_order (places doc))"

text \<open>
  Every place that the loops reach holds a paragraph object of the document, and no
  paragraph object is reached twice: no merged cell and no header or footer linked
  to the previous section.
\<close>

definition reached_once :: "opened_document \<Rightarrow> bool" where
  "reached_once doc =
     (distinct (restorer_order (places doc))
      \<and> (\<forall>para \<in> set (restorer_order (places doc)). para < length (para_texts doc)))"

text \<open>
  A loop that rewrites the elements of a list one after the other while it updates
  counters: the new list and the counters after the last element.
\<close>

fun map_accum :: "('s \<Rightarrow> 'a \<Rightarrow> 'b \<times> 's) \<Rightarrow> 's \<Rightarrow> 'a list \<Rightarrow> 'b list \<times> 's" where
  "map_accum f st [] = ([], st)"
| "map_accum f st (x # xs) =
     (let (y, st') = f st x; (ys, st'') = map_accum f st' xs in (y # ys, st''))"

text \<open>
  What a loop of \<open>process_document\<close> computes from the text of one paragraph: the new
  text and the counters, the text itself when it is empty or does not contain \<open>Eqn\<close>.
\<close>

definition process_para :: "string list \<Rightarrow> nat \<times> nat \<Rightarrow> string \<Rightarrow> string \<times> (nat \<times> nat)" where
  "process_para original_placeholders st para =
     (if para \<noteq> [] \<and> contains ''Eqn'' para then process_text original_placeholders st para
      else (para, st))"

text \<open>
  The matches of the rewrite of v4 in a paragraph: the matches of its pattern when
  the paragraph contains \<open>Eqn\<close>, none otherwise; with the gaps before them and the tail
  behind the last one. These are the occurrences that the rewrite replaces; they are
  found by the pattern of \<open>process_text\<close>, not by the scanner \<open>extract_from_text\<close>.
\<close>

definition rewrite_segments :: "string \<Rightarrow> (string \<times> string) list \<times> string" where
  "rewrite_segments para =
     (if para \<noteq> [] \<and> contains ''Eqn'' para then segments comprehensive_pattern para
      else ([], para))"

definition rewrite_texts :: "string \<Rightarrow> string list" where
  "rewrite_texts para = map snd (fst (rewrite_segments para))"

definition rewrite_spans :: "string \<Rightarrow> (nat \<times> nat) list" where
  "rewrite_spans para =
     (if para \<noteq> [] \<and> contains ''Eqn'' para
      then map (\<lambda>(start, stop, _). (start, stop)) (re_finditer comprehensive_pattern para)
      else [])"

text \<open>What the rewrite makes of the paragraphs when it reaches them with index \<open>i\<close>.\<close>

fun rewritten :: "string list \<Rightarrow> nat \<Rightarrow> string list \<Rightarrow> string list" where
  "rewritten orig i [] = []"
| "rewritten orig i (para # paras) =
     (case rewrite_segments para of
        (segs, tail) \<Rightarrow>
          weave (map fst segs) (chosen orig i (map snd segs)) tail #
            rewritten orig (i + length segs) paras)"

text \<open>
  The occurrences of the specification in a text block: the spans of what the
  scanner \<open>extract_from_text\<close> finds there, and the text that stands in each span.
\<close>

definition scanned_spans :: "string \<Rightarrow> (nat \<times> nat) list" where
  "scanned_spans block = map (\<lambda>(start, stop, _). (start, stop)) (found_placeholders block)"

definition occurrence_texts :: "string \<Rightarrow> string list" where
  "occurrence_texts block =
     map (\<lambda>(start, stop). take (stop - start) (drop start block)) (scanned_spans block)"

text \<open>
  The candidate sequence of the specification: what the scanner finds in the text
  blocks of the translated document, block after block in traversal order, the way
  \<open>extract_placeholders_list\<close> builds the canonical sequence from the original.
\<close>

definition candidate_sequence :: "opened_document \<Rightarrow> string list" where
  "candidate_sequence doc = concat (map extract_from_text (blocks doc))"

text \<open>
  The rewrite and the scanner agree on a document: in every text block the matches
  of the rewrite are exactly the occurrences that the scanner finds.
\<close>

definition rewrite_finds_scanned :: "opened_document \<Rightarrow> bool" where
  "rewrite_finds_scanned doc =
     (\<forall>block \<in> set (blocks doc). rewrite_spans block = scanned_spans block)"

text \<open>
  The patch of the specification (section 4.5, steps 3 and 4): in a text block each
  occurrence's span is replaced by the text mapped to it, the replacements applied
  in descending offset order; over the blocks in traversal order, occurrence \<open>i\<close> of
  the candidate sequence is mapped to entry \<open>i\<close> of the canonical sequence.
\<close>

definition splice :: "nat \<times> nat \<Rightarrow> string \<Rightarrow> string \<Rightarrow> string" where
  "splice span new block = take (fst span) block @ new @ drop (snd span) block"

definition replace_spans :: "(nat \<times> nat) list \<Rightarrow> string list \<Rightarrow> string \<Rightarrow> string" where
  "replace_spans spans news block =
     foldr (\<lambda>(span, new) patched. splice span new patched) (zip spans news) block"


text \<open>
  One step of a loop of \<open>process_document\<close> on the texts of the paragraph objects and
  the counters: the object at \<open>para\<close> gets what \<open>process_para\<close> computes from its text.
\<close>

definition rewrite_object :: "string list \<Rightarrow> string list \<times> (nat \<times> nat) \<Rightarrow> nat \<Rightarrow> string list \<times> (nat \<times> nat)" where
  "rewrite_object orig state para =
     (case state of (texts, st) \<Rightarrow>
        (texts[para := fst (process_para orig st (texts ! para))],
         snd (process_para orig st (texts ! para))))"

text \<open>
  A translated document of five paragraph objects (two in the body, one in a table
  cell, one in the header and one in the footer of its section), and an original
  with six placeholders at the same places.
\<close>

definition damaged_example :: opened_document where
  "damaged_example =
     \<lparr>para_texts = [''Eqn1.eps>>;<<Eqn2'', ''no formula'', ''(EqN3>>) and (Eqn4>>)'',
                     ''< <Eqn7> >.'', ''see <<Eqn5''],
      places = \<lparr>paragraphs = [0, 1], tables = [[[[2]]]],
                 sections = [\<lparr>header = \<lparr>hf_paragraphs = [3], hf_tables = []\<rparr>,
                              footer = \<lparr>hf_paragraphs = [4], hf_tables = []\<rparr>\<rparr>]\<rparr>\<rparr>"

definition original_example :: document where
  "original_example =
     \<lparr>paragraphs = [''<<Eqn1>> and <<Eqn2.eps>>,'', ''text''],
      tables = [[[[''(<<Eqn3>>) or (<<Eqn4>>)'']]]],
      sections = [\<lparr>header = \<lparr>hf_paragraphs = [''<<Eqn5.eps>>''], hf_tables = []\<rparr>,
                   footer = \<lparr>hf_paragraphs = [''page <<Eqn6>>''], hf_tables = []\<rparr>\<rparr>]\<rparr>"

text \<open>
  A reconciled document in which a merged cell lets the loops reach one paragraph
  twice, and its original.
\<close>

definition reconciled_example :: opened_document where
  "reconciled_example =
     \<lparr>para_texts = [''see<<Eqn1>>and<<Eqn2.eps>>.'', ''(<<Eqn3>>,)''],
      places = \<lparr>paragraphs = [0], tables = [[[[1], [1]]]], sections = []\<rparr>\<rparr>"

definition reconciled_original :: document where
  "reconciled_original =
     \<lparr>paragraphs = [''see<<Eqn1>>and<<Eqn2.eps>>.''],
      tables = [[[[''(<<Eqn3>>,)''], [''(<<Eqn3>>,)'']]]], sections = []\<rparr>"

text \<open>What v4 saves for \<open>damaged_example\<close> and \<open>original_example\<close>.\<close>

definition first_run_example :: opened_document where
  "first_run_example =
     damaged_example\<lparr>para_texts :=
       [''<<Eqn1>>;<<Eqn2.eps>>,'', ''no formula'', ''(<<Eqn3>>) and (<<Eqn4>>)'',
        ''<<Eqn5.eps>>.'', ''see <<Eqn6>>'']\<rparr>"

text \<open>The damaged occurrences of the specification's example, one to a paragraph.\<close>

definition spec_vector_example :: opened_document where
  "spec_vector_example =
     \<lparr>para_texts = [''Eqn1.eps>>'', ''<<Eqn2'', ''EqN3>>''],
      places = \<lparr>paragraphs = [0, 1, 2], tables = [], sections = []\<rparr>\<rparr>"

text \<open>A table row in which a merged cell lets the loops reach one paragraph twice.\<close>

definition merged_cell_example :: opened_document where
  "merged_cell_example =
     \<lparr>para_texts = [''Eqn5>>''],
      places = \<lparr>paragraphs = [], tables = [[[[0], [0]]]], sections = []\<rparr>\<rparr>"

text \<open>
  A document whose third paragraph object stands in a table of the header, where the
  loops of \<open>process_document\<close> do not come.
\<close>

definition frame_example :: opened_document where
  "frame_example =
     \<lparr>para_texts = [''see Eqn1>> and <<Eqn2, ok'', ''no formula here'',
                     ''Eqn9 in a header table'', ''(Eqn4>>)''],
      places = \<lparr>paragraphs = [0, 1], tables = [],
                 sections = [\<lparr>header = \<lparr>hf_paragraphs = [], hf_tables = [[[[2]]]]\<rparr>,
                              footer = \<lparr>hf_paragraphs = [3], hf_tables = []\<rparr>\<rparr>]\<rparr>\<rparr>"

text \<open>The overlap test of the scanner, on two occurrences.\<close>

definition spans_overlap :: "nat \<times> nat \<times> string \<Rightarrow> nat \<times> nat \<times> string \<Rightarrow> bool" where
  "spans_overlap a b = (\<not> (fst (snd a) \<le> fst b \<or> fst a \<ge> fst (snd b)))"

text \<open>A pattern every match of which consumes at least one character.\<close>

fun consuming :: "regex \<Rightarrow> bool" where
  "consuming (Chr c) = True"
| "consuming (Sat P) = True"
| "consuming (Seq a b) = (consuming a \<or> consuming b)"
| "consuming (Alt a b) = (consuming a \<and> consuming b)"
| "consuming _ = False"

text \<open>
  The occurrences before \<open>found_placeholders.sort\<close>: the well-formed matches, then
  what the loops over the damaged patterns have appended.
\<close>

definition found_unsorted :: "string \<Rightarrow> (nat \<times> nat \<times> string) list" where
  "found_unsorted text =
     foldl (\<lambda>found pattern. add_damaged found (re_finditer pattern text))
       (re_finditer correct_pattern text) damaged_patterns"

text \<open>The end of the match that \<open>re\<close> reports for one attempt at a cursor, if any.\<close>

definition first_end :: "regex \<Rightarrow> cursor \<Rightarrow> cursor option" where
  "first_end r st = (case ms r st of [] \<Rightarrow> None | x # _ \<Rightarrow> Some x)"

text \<open>The canonical text of a placeholder.\<close>

definition canonical_text :: "string \<Rightarrow> bool \<Rightarrow> bool \<Rightarrow> string" where
  "canonical_text num eps comma =
     ''<<Eqn'' @ num @ (if eps then ''.eps'' else []) @ ''>>'' @ (if comma then '','' else [])"

text \<open>The text that the repair of v4 builds for an occurrence with a trailing comma.\<close>

definition comma_inside :: "string \<Rightarrow> bool \<Rightarrow> string" where
  "comma_inside num eps = ''<<Eqn'' @ num @ (if eps then ''.eps'' else []) @ '',>>''"

section \<open>Properties of the rewrite of \<open>eqn_restoration_v4_final.py\<close>\<close>

lemma sub_segs_replace_placeholder:
  "sub_segs (replace_placeholder orig) (i, n) segs tail =
     (weave (map fst segs) (chosen orig i (map snd segs)) tail,
      (i + length segs, n + (min (length orig) (i + length segs) - min (length orig) i)))"
proof (induction segs arbitrary: i n)
  case Nil
  show ?case by simp
next
  case (Cons seg segs)
  obtain g m where seg: "seg = (g, m)" by (cases seg)
  show ?case
  proof (cases "i < length orig")
    case True
    then have step: "replace_placeholder orig (i, n) m = (orig ! i, (i + 1, n + 1))"
      by (simp add: replace_placeholder_def)
    from True have cnt: "n + 1 + (min (length orig) (i + 1 + length segs) - min (length orig) (i + 1))
        = n + (min (length orig) (i + length (seg # segs)) - min (length orig) i)"
      by (auto simp: min_def)
    have "sub_segs (replace_placeholder orig) (i, n) ((g, m) # segs) tail =
        (g @ orig ! i @ fst (sub_segs (replace_placeholder orig) (i + 1, n + 1) segs tail),
         snd (sub_segs (replace_placeholder orig) (i + 1, n + 1) segs tail))"
      by (simp add: step split: prod.splits)
    then show ?thesis
      unfolding seg Cons.IH[of "i + 1" "n + 1"] using True cnt by simp
  next
    case False
    then have step: "replace_placeholder orig (i, n) m = (m, (i + 1, n))"
      by (simp add: replace_placeholder_def)
    from False have cnt: "n + (min (length orig) (i + 1 + length segs) - min (length orig) (i + 1))
        = n + (min (length orig) (i + length (seg # segs)) - min (length orig) i)"
      by (auto simp: min_def)
    have "sub_segs (replace_placeholder orig) (i, n) ((g, m) # segs) tail =
        (g @ m @ fst (sub_segs (replace_placeholder orig) (i + 1, n) segs tail),
         snd (sub_segs (replace_placeholder orig) (i + 1, n) segs tail))"
      by (simp add: step split: prod.splits)
    then show ?thesis
      unfolding seg Cons.IH[of "i + 1" n] using False cnt by simp
  qed
qed

lemma chosen_exhausted: "length orig \<le> i \<Longrightarrow> chosen orig i matches = matches"
  by (induction matches arbitrary: i) auto

lemma chosen_available:
  "i + length matches \<le> length orig \<Longrightarrow> chosen orig i matches = take (length matches) (drop i orig)"
proof (induction matches arbitrary: i)
  case Nil
  show ?case by simp
next
  case (Cons m matches)
  then have lt: "i < length orig" by simp
  from Cons have "chosen orig (Suc i) matches = take (length matches) (drop (Suc i) orig)"
    by simp
  with lt show ?case by (simp add: take_Suc_conv_app_nth Cons_nth_drop_Suc[symmetric])
qed

lemma length_chosen: "length (chosen orig i matches) = length matches"
  by (induction matches arbitrary: i) auto

lemma segments_comprehensive_empty: "segments comprehensive_pattern [] = ([], [])"
  by code_simp

lemma process_text_chosen:
  assumes "segments comprehensive_pattern text = (segs, tail)"
  shows "process_text orig (i, n) text =
     (weave (map fst segs) (chosen orig i (map snd segs)) tail,
      (i + length segs, n + (min (length orig) (i + length segs) - min (length orig) i)))"
proof (cases "text = []")
  case True
  with assms segments_comprehensive_empty have "segs = []" "tail = []"
    by simp_all
  with True show ?thesis by (simp add: process_text_def)
next
  case False
  then show ?thesis
    by (simp add: process_text_def re_sub_def assms sub_segs_replace_placeholder)
qed

text \<open>
  C10. In the v4 restorer, when \<open>placeholder_index\<close> has reached the number of
  placeholders of the original, \<open>replace_placeholder\<close> returns the matched text itself
  and still advances \<open>placeholder_index\<close> (which becomes
  \<open>placeholders_found_in_translation\<close>) without counting a replacement; so a text
  reached in that state keeps all its occurrences verbatim and the index grows by
  their number.
\<close>

theorem excess_occurrences_kept:
  assumes "length original_placeholders \<le> placeholder_index"
  shows "replace_placeholder original_placeholders (placeholder_index, replaced) matched =
           (matched, (placeholder_index + 1, replaced))
       \<and> process_text original_placeholders (placeholder_index, replaced) text =
           (text, (placeholder_index + length (re_findall comprehensive_pattern text), replaced))"
proof -
  obtain segs tail where st: "segments comprehensive_pattern text = (segs, tail)"
    by (cases "segments comprehensive_pattern text")
  have "replace_placeholder original_placeholders (placeholder_index, replaced) matched =
      (matched, (placeholder_index + 1, replaced))"
    using assms by (simp add: replace_placeholder_def)
  moreover have "process_text original_placeholders (placeholder_index, replaced) text =
      (text, (placeholder_index + length (re_findall comprehensive_pattern text), replaced))"
    using assms process_text_chosen[OF st, of original_placeholders placeholder_index replaced]
      segments_text[OF st]
    by (simp add: chosen_exhausted re_findall_def st)
  ultimately show ?thesis by simp
qed

theorem excess_occurrences_kept_witness:
  "length [''<<Eqn1>>''] \<le> (1::nat)
   \<and> replace_placeholder [''<<Eqn1>>''] (1, 1) ''Eqn2>>'' = (''Eqn2>>'', (2, 1))
   \<and> process_text [''<<Eqn1>>''] (1, 1) ''see Eqn2>> and <<Eqn3'' =
         (''see Eqn2>> and <<Eqn3'', (3, 1))"
proof -
  have h: "length [''<<Eqn1>>''] \<le> (1::nat)" by simp
  have n: "length (re_findall comprehensive_pattern ''see Eqn2>> and <<Eqn3'') = 2"
    by code_simp
  from excess_occurrences_kept[OF h, of 1 "''Eqn2>>''" "''see Eqn2>> and <<Eqn3''"] n
  show ?thesis by simp
qed

section \<open>The order in which the paragraphs are visited\<close>

lemma foldl_extend: "foldl (\<lambda>acc x. acc @ f x) acc xs = acc @ concat (map f xs)"
  by (induction xs arbitrary: acc) simp_all

lemma foldl_foldl_concat:
  "foldl (\<lambda>acc xs. foldl f acc xs) acc xss = foldl f acc (concat xss)"
  by (induction xss arbitrary: acc) simp_all

lemma foldl_tables:
  "foldl (\<lambda>acc table. foldl (\<lambda>acc row. foldl (\<lambda>acc cell. foldl f acc cell) acc row) acc table)
     acc ts = foldl f acc (table_order ts)"
proof -
  have "foldl (\<lambda>acc table. foldl (\<lambda>acc row. foldl (\<lambda>acc cell. foldl f acc cell) acc row)
      acc table) acc ts =
      foldl (\<lambda>acc row. foldl (\<lambda>acc cell. foldl f acc cell) acc row) acc (concat ts)"
    by (rule foldl_foldl_concat)
  also have "\<dots> = foldl (\<lambda>acc cell. foldl f acc cell) acc (concat (concat ts))"
    by (rule foldl_foldl_concat)
  also have "\<dots> = foldl f acc (concat (concat (concat ts)))"
    by (rule foldl_foldl_concat)
  finally show ?thesis by (simp add: table_order_def)
qed

lemma foldl_sections:
  "foldl (\<lambda>acc s. foldl f (foldl f acc (a s)) (b s)) acc ss =
     foldl f acc (concat (map (\<lambda>s. a s @ b s) ss))"
  by (induction ss arbitrary: acc) simp_all

lemma full_text_order: "full_text d = restorer_order d"
proof -
  have "full_text d = foldl (\<lambda>acc para. acc @ [para]) [] (restorer_order d)"
    by (simp add: full_text_def restorer_order_def foldl_tables foldl_sections Let_def)
  also have "\<dots> = restorer_order d"
    by (simp add: foldl_extend)
  finally show ?thesis .
qed

lemma v4_extract_order:
  "v4_extract_placeholders_list (Some d) = concat (map extract_from_text (restorer_order d))"
proof -
  have "v4_extract_placeholders_list (Some d) =
      foldl (\<lambda>acc para. acc @ extract_from_text para) [] (restorer_order d)"
    by (simp add: v4_extract_placeholders_list_def restorer_order_def foldl_tables
        foldl_sections Let_def)
  then show ?thesis by (simp add: foldl_extend)
qed

lemma cleaner_visit_order:
  "clean_translated_docx_visit f acc d = foldl f acc (cleaner_order d)"
proof -
  have sec: "foldl (\<lambda>acc s. foldl f (foldl f (foldl f (foldl f acc (a s)) (b s)) (c s)) (e s))
      acc ss = foldl f acc (concat (map (\<lambda>s. a s @ b s @ c s @ e s) ss))"
    for a b c e :: "string doc_section \<Rightarrow> string list" and ss acc
    by (induction ss arbitrary: acc) simp_all
  show ?thesis
    by (simp add: clean_translated_docx_visit_def visit_tables_def cleaner_order_def
        foldl_tables sec Let_def)
qed

text \<open>
  C8, as amended. The two restorers (\<open>_get_all_text_from_docx\<close> of the batch script,
  \<open>extract_placeholders_list\<close> of v4) visit the body paragraphs top to bottom, then
  the tables in document order (rows top to bottom, cells left to right, paragraphs
  top to bottom), then section by section the header paragraphs followed by the
  footer paragraphs; they do not visit the tables of headers and footers. Only
  \<open>clean_translated_docx\<close> visits those too, each behind the paragraphs of its header
  or footer.
\<close>

theorem traversal_order:
  "full_text d = restorer_order d
   \<and> v4_extract_placeholders_list (Some d) = concat (map extract_from_text (restorer_order d))
   \<and> clean_translated_docx_visit f acc d = foldl f acc (cleaner_order d)"
  by (simp add: full_text_order v4_extract_order cleaner_visit_order)

text \<open>
  In \<open>doc_header_table\<close> the restorers never reach the paragraph of the table in
  the header, \<open>clean_translated_docx\<close> does.
\<close>

theorem header_table_not_visited:
  "full_text doc_header_table = [''body'', ''head'', ''foot'']
   \<and> v4_extract_placeholders_list (Some doc_header_table) = []
   \<and> clean_translated_docx_visit (\<lambda>acc para. acc @ [para]) [] doc_header_table =
       [''body'', ''head'', ''<<Eqn1>>'', ''foot'']"
  by code_simp

section \<open>Properties of \<open>process_document\<close> of the batch script\<close>

lemma patch_loop_plan:
  "i + length found \<le> length orig \<Longrightarrow>
     patch_loop orig i found content = Some (apply_plan (zip found (drop i orig)) content)"
proof (induction found arbitrary: i content)
  case Nil
  show ?case by (simp add: apply_plan_def)
next
  case (Cons p found)
  then have lt: "i < length orig" and rest: "(i + 1) + length found \<le> length orig"
    by simp_all
  from lt have d: "drop i orig = orig ! i # drop (i + 1) orig"
    by (simp add: Cons_nth_drop_Suc)
  from Cons.IH[OF rest] lt show ?case
    by (simp add: d apply_plan_def)
qed

lemma zip_take_left: "zip (take (length ys) xs) ys = zip xs ys"
proof (induction ys arbitrary: xs)
  case Nil
  show ?case by simp
next
  case (Cons y ys)
  then show ?case by (cases xs) simp_all
qed

lemma batch_process_document_patch:
  assumes "batch_canonical original \<noteq> []"
    and "length (batch_canonical original) = length (batch_candidates translated) \<or> force_mode"
  shows "batch_process_document (Some original) (Some translated) binary_content force_mode =
     \<lparr>success = True, message = ReplacedCount (length (batch_canonical original)),
      written = Some (apply_plan (zip (batch_candidates translated) (batch_canonical original))
        binary_content),
      printed = (if length (batch_canonical original) = length (batch_candidates translated)
                 then []
                 else [WarnMismatch (length (batch_canonical original))
                         (length (batch_candidates translated)), ForceModeOn])\<rparr>"
proof -
  let ?orig = "batch_canonical original" and ?found = "batch_candidates translated"
  have loop: "patch_loop ?orig 0 (take (length ?orig) ?found) binary_content =
      Some (apply_plan (zip ?found ?orig) binary_content)"
    using patch_loop_plan[of 0 "take (length ?orig) ?found" ?orig binary_content]
    by (simp add: zip_take_left)
  have same: "length ?orig = length ?found \<Longrightarrow> take (length ?orig) ?found = ?found"
    by simp
  show ?thesis
  proof (cases "length ?orig = length ?found")
    case True
    with assms(1) loop show ?thesis
      by (simp add: batch_process_document_def get_all_text_from_docx_def Let_def
          batch_canonical_def[symmetric] batch_candidates_def[symmetric])
  next
    case False
    with assms loop show ?thesis
      by (simp add: batch_process_document_def get_all_text_from_docx_def Let_def
          batch_canonical_def[symmetric] batch_candidates_def[symmetric])
  qed
qed

text \<open>
  C2. With a non-empty canonical sequence and a candidate sequence of another
  length, \<open>process_document\<close> of the batch script in strict mode (\<open>force_mode=False\<close>,
  the default) returns failure with the message that names both counts and writes
  nothing; in force mode it prints the mismatch, pairs the two sequences up to the
  length of the shorter one, applies that plan and returns success.
\<close>

theorem length_mismatch_strict_and_force:
  assumes "batch_canonical original \<noteq> []"
    and "length (batch_canonical original) \<noteq> length (batch_candidates translated)"
  shows "batch_process_document (Some original) (Some translated) binary_content False =
           \<lparr>success = False,
            message = MismatchStopped (length (batch_canonical original))
              (length (batch_candidates translated)),
            written = None, printed = []\<rparr>
       \<and> batch_process_document (Some original) (Some translated) binary_content True =
           \<lparr>success = True, message = ReplacedCount (length (batch_canonical original)),
            written = Some (apply_plan
              (zip (take (min (length (batch_canonical original))
                       (length (batch_candidates translated))) (batch_candidates translated))
                   (take (min (length (batch_canonical original))
                       (length (batch_candidates translated))) (batch_canonical original)))
              binary_content),
            printed = [WarnMismatch (length (batch_canonical original))
                         (length (batch_candidates translated)), ForceModeOn]\<rparr>"
proof -
  have strict: "batch_process_document (Some original) (Some translated) binary_content False =
      \<lparr>success = False,
       message = MismatchStopped (length (batch_canonical original))
         (length (batch_candidates translated)),
       written = None, printed = []\<rparr>"
    using assms
    by (simp add: batch_process_document_def get_all_text_from_docx_def Let_def
        batch_canonical_def[symmetric] batch_candidates_def[symmetric])
  have z: "zip (take (min (length (batch_canonical original))
        (length (batch_candidates translated))) (batch_candidates translated))
      (take (min (length (batch_canonical original))
        (length (batch_candidates translated))) (batch_canonical original)) =
      zip (batch_candidates translated) (batch_canonical original)"
    by (simp add: take_zip[symmetric])
  show ?thesis
    using strict batch_process_document_patch[OF assms(1), of translated True binary_content]
      assms(2)
    by (simp only: z) simp
qed

lemma canonical_three:
  "batch_canonical (one_paragraph ''<<Eqn1>> a <<Eqn2.eps>> b <<Eqn3>>'') =
     [''<<Eqn1>>'', ''<<Eqn2.eps>>'', ''<<Eqn3>>'']"
  by code_simp

lemma candidates_two:
  "batch_candidates (one_paragraph ''Eqn1.eps>> a <<Eqn2 b'') = [''Eqn1.eps>> '', '' <<Eqn2 '']"
  by code_simp

lemma plan_two:
  "apply_plan [(''Eqn1.eps>> '', ''<<Eqn1>>''), ('' <<Eqn2 '', ''<<Eqn2.eps>>'')]
     ''Eqn1.eps>> a <<Eqn2 b'' = ''<<Eqn1>>a<<Eqn2.eps>>b''"
  by code_simp

theorem length_mismatch_strict_and_force_witness:
  "batch_canonical (one_paragraph ''<<Eqn1>> a <<Eqn2.eps>> b <<Eqn3>>'') \<noteq> []
   \<and> length (batch_canonical (one_paragraph ''<<Eqn1>> a <<Eqn2.eps>> b <<Eqn3>>'')) \<noteq>
       length (batch_candidates (one_paragraph ''Eqn1.eps>> a <<Eqn2 b''))
   \<and> batch_process_document (Some (one_paragraph ''<<Eqn1>> a <<Eqn2.eps>> b <<Eqn3>>''))
         (Some (one_paragraph ''Eqn1.eps>> a <<Eqn2 b'')) ''Eqn1.eps>> a <<Eqn2 b'' False =
       \<lparr>success = False, message = MismatchStopped 3 2, written = None, printed = []\<rparr>
   \<and> batch_process_document (Some (one_paragraph ''<<Eqn1>> a <<Eqn2.eps>> b <<Eqn3>>''))
         (Some (one_paragraph ''Eqn1.eps>> a <<Eqn2 b'')) ''Eqn1.eps>> a <<Eqn2 b'' True =
       \<lparr>success = True, message = ReplacedCount 3,
        written = Some ''<<Eqn1>>a<<Eqn2.eps>>b'',
        printed = [WarnMismatch 3 2, ForceModeOn]\<rparr>"
proof -
  have h1: "batch_canonical (one_paragraph ''<<Eqn1>> a <<Eqn2.eps>> b <<Eqn3>>'') \<noteq> []"
    by (simp add: canonical_three)
  have h2: "length (batch_canonical (one_paragraph ''<<Eqn1>> a <<Eqn2.eps>> b <<Eqn3>>'')) \<noteq>
      length (batch_candidates (one_paragraph ''Eqn1.eps>> a <<Eqn2 b''))"
    by (simp add: canonical_three candidates_two)
  from length_mismatch_strict_and_force[OF h1 h2, of "''Eqn1.eps>> a <<Eqn2 b''"] h1 h2
  show ?thesis
    by (simp add: canonical_three candidates_two plan_two)
qed

text \<open>
  C3, as amended. With an empty canonical sequence the batch script returns
  success: it copies the translated file when the candidate sequence is empty too,
  and otherwise removes every occurrence of each candidate's bytes from the file and
  reports how many candidates it found. The v4 script has no such pass-through: with
  no placeholder extracted from the original it returns failure and saves nothing.
\<close>

theorem no_canonical_placeholders:
  "(batch_canonical original = [] \<longrightarrow>
      batch_process_document (Some original) (Some translated) binary_content force_mode =
        (if batch_candidates translated = []
         then \<lparr>success = True, message = NothingFoundCopied, written = Some binary_content,
               printed = []\<rparr>
         else \<lparr>success = True,
               message = ExtrasRemoved (length (batch_candidates translated)),
               written = Some (strip_all (batch_candidates translated) binary_content),
               printed = [WarnNoOriginalRemoving (length (batch_candidates translated))]\<rparr>))
   \<and> (v4_extract_placeholders_list original_doc = [] \<longrightarrow>
      v4_process_document (Some document) (Some original_doc) =
        \<lparr>v4_success = False, v4_message = NoOriginalPlaceholders, v4_saved = None\<rparr>)"
  by (simp add: batch_process_document_def get_all_text_from_docx_def Let_def strip_all_def
      batch_canonical_def[symmetric] batch_candidates_def[symmetric] v4_process_document_def)

lemma strip_eqn5:
  "batch_canonical (one_paragraph ''no formula'') = []
   \<and> batch_candidates (one_paragraph ''see Eqn5>> here'') = ['' Eqn5>> '']
   \<and> strip_all ['' Eqn5>> ''] ''see Eqn5>> here'' = ''seehere''
   \<and> v4_extract_placeholders_list (Some (one_paragraph ''no formula'')) = []"
  by code_simp

theorem no_canonical_placeholders_witness:
  "batch_canonical (one_paragraph ''no formula'') = []
   \<and> batch_process_document (Some (one_paragraph ''no formula''))
        (Some (one_paragraph ''see Eqn5>> here'')) ''see Eqn5>> here'' False =
       \<lparr>success = True, message = ExtrasRemoved 1, written = Some ''seehere'',
        printed = [WarnNoOriginalRemoving 1]\<rparr>
   \<and> v4_extract_placeholders_list (Some (one_paragraph ''no formula'')) = []
   \<and> v4_process_document (Some (one_object ''see Eqn5>> here''))
        (Some (Some (one_paragraph ''no formula''))) =
       \<lparr>v4_success = False, v4_message = NoOriginalPlaceholders, v4_saved = None\<rparr>"
  using no_canonical_placeholders[of "one_paragraph ''no formula''"
      "one_paragraph ''see Eqn5>> here''" "''see Eqn5>> here''" False
      "Some (one_paragraph ''no formula'')" "one_object ''see Eqn5>> here''"]
    strip_eqn5
  by simp

text \<open>
  Canonical and candidate sequence both empty: the claim promises a success that
  copies the document; v4 returns failure and saves nothing.
\<close>

theorem v4_no_placeholders_fails:
  "v4_extract_placeholders_list (Some (one_paragraph ''no formula'')) = []
   \<and> re_findall comprehensive_pattern ''no formula'' = []
   \<and> v4_success (v4_process_document (Some (one_object ''no formula''))
        (Some (Some (one_paragraph ''no formula'')))) = False
   \<and> v4_saved (v4_process_document (Some (one_object ''no formula''))
        (Some (Some (one_paragraph ''no formula'')))) = None"
  by code_simp

subsection \<open>Where the sequential replacement lands\<close>

lemma replace_first_at:
  "first_at old s = Some k \<Longrightarrow> replace_first old new s = take k s @ new @ drop (k + length old) s"
proof (induction s arbitrary: k)
  case Nil
  then show ?case by (simp split: if_splits)
next
  case (Cons c cs)
  show ?case
  proof (cases "startswith (c # cs) old")
    case True
    with Cons.prems show ?thesis by simp
  next
    case False
    with Cons.prems obtain j where j: "first_at old cs = Some j" "k = Suc j" by auto
    from Cons.IH[OF j(1)] False j(2) show ?thesis by simp
  qed
qed

lemma replace_first_absent: "first_at old s = None \<Longrightarrow> replace_first old new s = s"
  by (induction s) (auto split: if_splits)

lemma replace_first_same: "replace_first old old s = s"
proof (induction s)
  case Nil
  show ?case by simp
next
  case (Cons c cs)
  show ?case
  proof (cases "startswith (c # cs) old")
    case True
    then have "old @ drop (length old) (c # cs) = c # cs"
      unfolding startswith_def by (metis append_take_drop_id)
    with True show ?thesis by simp
  next
    case False
    with Cons show ?thesis by simp
  qed
qed

lemma startswith_append:
  "length p \<le> length s \<Longrightarrow> startswith (s @ r) p = startswith s p"
  by (simp add: startswith_def)

lemma first_at_own_position:
  "first_at old (a @ old) = Some (length a) \<Longrightarrow> first_at old (a @ old @ r) = Some (length a)"
proof (induction a)
  case Nil
  have sw: "startswith (old @ r) old" by (simp add: startswith_def)
  show ?case
  proof (cases "old @ r")
    case Nil
    then show ?thesis by simp
  next
    case (Cons x xs)
    with sw show ?thesis by simp
  qed
next
  case (Cons c a)
  have len: "length old \<le> length (c # a @ old)" by simp
  have sw: "startswith (c # a @ old @ r) old = startswith (c # a @ old) old"
    using startswith_append[OF len, of r] by simp
  from Cons.prems have no: "\<not> startswith (c # a @ old) old"
    by (auto split: if_splits)
  with Cons.prems have "first_at old (a @ old) = Some (length a)" by auto
  from Cons.IH[OF this] no sw show ?case by simp
qed

lemma apply_plan_Cons:
  "apply_plan ((old, new) # plan) content =
     apply_plan plan (replace_first (encode old) (encode new) content)"
  by (simp add: apply_plan_def)

lemma apply_plan_lands:
  assumes "length gaps = length found" and "length found = length orig"
    and "lands done gaps found orig"
  shows "apply_plan (zip found orig) (done @ weave gaps (map encode found) tail) =
     done @ weave gaps (map encode orig) tail"
  using assms
proof (induction gaps found orig arbitrary: "done" rule: list_induct3)
  case Nil
  show ?case by (simp add: apply_plan_def)
next
  case (Cons g gaps c found p orig)
  from Cons.prems have here: "first_at (encode c) ((done @ g) @ encode c) = Some (length (done @ g))"
    and later: "lands (done @ g @ encode p) gaps found orig"
    by simp_all
  from first_at_own_position[OF here, of "weave gaps (map encode found) tail"]
  have "first_at (encode c) (done @ g @ encode c @ weave gaps (map encode found) tail) =
      Some (length (done @ g))"
    by simp
  from replace_first_at[OF this, of "encode p"]
  have step: "replace_first (encode c) (encode p)
      (done @ g @ encode c @ weave gaps (map encode found) tail) =
      (done @ g @ encode p) @ weave gaps (map encode found) tail"
    by simp
  from Cons.IH[OF later] show ?case
    by (simp add: apply_plan_Cons step)
qed

text \<open>
  C7, as amended. The sequential replacement of the byte-level strategy puts every
  original placeholder in the place of its candidate provided that, at each step,
  the bytes of the candidate do not occur earlier in what has been patched so far
  (\<open>lands\<close>). Without that proviso it can land inside a placeholder written by an
  earlier step.
\<close>

theorem sequential_replacement_lands:
  assumes "length gaps = length found" and "length found = length orig"
    and "lands [] gaps found orig"
  shows "patch_loop orig 0 found (weave gaps (map encode found) tail) =
     Some (weave gaps (map encode orig) tail)"
proof -
  have "patch_loop orig 0 found (weave gaps (map encode found) tail) =
      Some (apply_plan (zip found orig) (weave gaps (map encode found) tail))"
    using patch_loop_plan[of 0 found orig] assms(2) by simp
  with apply_plan_lands[OF assms, of tail] show ?thesis by simp
qed

theorem sequential_replacement_lands_witness:
  "length [''see '', '' and ''] = length [''Eqn1>>'', ''<<Eqn2'']
   \<and> length [''Eqn1>>'', ''<<Eqn2''] = length [''<<Eqn1.eps>>'', ''<<Eqn2>>'']
   \<and> lands [] [''see '', '' and ''] [''Eqn1>>'', ''<<Eqn2''] [''<<Eqn1.eps>>'', ''<<Eqn2>>'']
   \<and> patch_loop [''<<Eqn1.eps>>'', ''<<Eqn2>>''] 0 [''Eqn1>>'', ''<<Eqn2'']
         ''see Eqn1>> and <<Eqn2 end'' = Some ''see <<Eqn1.eps>> and <<Eqn2>> end''"
proof -
  have l: "lands [] [''see '', '' and ''] [''Eqn1>>'', ''<<Eqn2'']
      [''<<Eqn1.eps>>'', ''<<Eqn2>>'']"
    by code_simp
  have w1: "weave [''see '', '' and ''] (map encode [''Eqn1>>'', ''<<Eqn2'']) '' end'' =
      ''see Eqn1>> and <<Eqn2 end''"
    by code_simp
  have w2: "weave [''see '', '' and ''] (map encode [''<<Eqn1.eps>>'', ''<<Eqn2>>'']) '' end'' =
      ''see <<Eqn1.eps>> and <<Eqn2>> end''"
    by code_simp
  from sequential_replacement_lands[OF _ _ l, of "'' end''"] l
  show ?thesis by (simp only: w1 w2) simp
qed

text \<open>
  Two occurrences of equation 1 in one run of text of the file: the second
  replacement finds \<open>Eqn1\<close> inside the placeholder that the first one has just
  written, and the second occurrence stays as it was.
\<close>

theorem sequential_replacement_contaminates:
  "batch_candidates (one_paragraph ''Eqn1 Eqn1'') = [''Eqn1 '', ''Eqn1'']
   \<and> patch_loop [''<<Eqn1>>'', ''<<Eqn2>>''] 0 [''Eqn1 '', ''Eqn1''] ''<w:t>Eqn1 Eqn1</w:t>'' =
       Some ''<w:t><<<<Eqn2>>>>Eqn1</w:t>''"
  by code_simp

section \<open>The scanner \<open>extract_from_text\<close> of v4\<close>

lemma ms_length:
  "(pre', rest') \<in> set (ms r (pre, rest)) \<Longrightarrow> length rest' \<le> length rest"
  using ms_consumes[of pre' rest' r pre rest] by auto

lemma consuming_shorter:
  "consuming r \<Longrightarrow> (pre', rest') \<in> set (ms r (pre, rest)) \<Longrightarrow> length rest' < length rest"
proof (induction r arbitrary: pre rest pre' rest')
  case (Chr c)
  then show ?case by (auto split: list.splits if_splits)
next
  case (Sat P)
  then show ?case by (auto split: list.splits if_splits)
next
  case (Seq a b)
  from Seq.prems(2) obtain p1 r1 where
    mid: "(p1, r1) \<in> set (ms a (pre, rest))" and fin: "(pre', rest') \<in> set (ms b (p1, r1))"
    by auto
  from Seq.prems(1) have "consuming a \<or> consuming b" by simp
  then show ?case
  proof
    assume "consuming a"
    from Seq.IH(1)[OF this mid] ms_length[OF fin] show ?thesis by simp
  next
    assume "consuming b"
    from Seq.IH(2)[OF this fin] ms_length[OF mid] show ?thesis by simp
  qed
next
  case (Alt a b)
  then show ?case by auto
qed simp_all

lemma scan_nonempty:
  "consuming r \<Longrightarrow> scan r adv pre gap rest = (segs, tail) \<Longrightarrow>
     \<forall>seg \<in> set segs. snd seg \<noteq> []"
proof (induction r adv pre gap rest arbitrary: segs tail rule: scan.induct)
  case (1 r adv pre gap rest)
  note cons = "1.prems"(1) and eq = "1.prems"(2)
  show ?case
  proof (cases "first_match r adv (pre, rest)")
    case None
    show ?thesis
    proof (cases rest)
      case Nil
      with None eq show ?thesis by (simp add: scan.simps)
    next
      case (Cons x xs)
      with None eq have "scan r False (x # pre) (x # gap) xs = (segs, tail)"
        by (simp add: scan.simps)
      from "1.IH"(1)[OF None Cons cons this] show ?thesis .
    qed
  next
    case (Some c)
    obtain pre' rest' where c: "c = (pre', rest')" by (cases c)
    from first_match_consumes[of r adv pre rest pre' rest'] Some c
    obtain m where m: "rest = m @ rest'" by auto
    from find_Some_mem[OF Some[unfolded first_match_def]] c
    have "(pre', rest') \<in> set (ms r (pre, rest))" by simp
    from consuming_shorter[OF cons this] m have ne: "m \<noteq> []" by auto
    obtain segs' tail' where rec: "scan r (m = []) pre' [] rest' = (segs', tail')"
      by (cases "scan r (m = []) pre' [] rest'")
    have tk: "take (length rest - length rest') rest = m" using m by simp
    have "scan r adv pre gap rest = ((rev gap, m) # segs', tail')"
      by (simp only: scan.simps[of r adv pre gap rest] Some c option.case prod.case
          Let_def tk rec)
    with eq have res: "segs = (rev gap, m) # segs'" by simp
    from "1.IH"(2)[OF Some c[symmetric] tk[symmetric] cons rec]
    have "\<forall>seg \<in> set segs'. snd seg \<noteq> []" .
    with res ne show ?thesis by simp
  qed
qed

lemma spans_from_chain:
  "sorted_wrt (\<lambda>a b. fst (snd a) \<le> fst b) (spans_from off segs)
   \<and> (\<forall>x \<in> set (spans_from off segs). off \<le> fst x \<and> fst x \<le> fst (snd x))"
proof (induction segs arbitrary: off)
  case Nil
  show ?case by simp
next
  case (Cons seg segs)
  obtain g m where seg: "seg = (g, m)" by (cases seg)
  from Cons[of "off + length g + length m"] show ?case
    by (auto simp: seg)
qed

lemma spans_from_nonempty:
  "\<forall>seg \<in> set segs. snd seg \<noteq> [] \<Longrightarrow> \<forall>x \<in> set (spans_from off segs). fst x < fst (snd x)"
proof (induction segs arbitrary: off)
  case Nil
  show ?case by simp
next
  case (Cons seg segs)
  obtain g m where seg: "seg = (g, m)" by (cases seg)
  from Cons.prems seg have "m \<noteq> []" by simp
  with Cons.IH[of "off + length g + length m"] Cons.prems show ?case
    by (auto simp: seg)
qed

lemma finditer_nonempty:
  assumes "consuming r"
  shows "\<forall>x \<in> set (re_finditer r text). fst x < fst (snd x)"
proof -
  obtain segs tail where s: "segments r text = (segs, tail)" by (cases "segments r text")
  from scan_nonempty[OF assms s[unfolded segments_def]]
  have "\<forall>seg \<in> set segs. snd seg \<noteq> []" .
  from spans_from_nonempty[OF this, of 0] show ?thesis
    by (simp add: re_finditer_def s)
qed

lemma spans_overlap_sym: "spans_overlap a b = spans_overlap b a"
  by (auto simp: spans_overlap_def)

lemma overlaps_found_iff:
  "overlaps_found start stop found = (\<exists>x \<in> set found. spans_overlap (start, stop, t) x)"
  by (simp add: overlaps_found_def spans_overlap_def list_ex_iff case_prod_beta)

lemma add_damaged_separate:
  "sorted_wrt (\<lambda>a b. \<not> spans_overlap a b) found \<Longrightarrow>
     sorted_wrt (\<lambda>a b. \<not> spans_overlap a b) (add_damaged found matches)"
proof (induction found matches rule: add_damaged.induct)
  case (1 found)
  then show ?case by simp
next
  case (2 found start stop original rest_matches)
  show ?case
  proof (cases "overlaps_found start stop found")
    case True
    from "2.IH"(1)[OF True "2.prems"] True show ?thesis by simp
  next
    case False
    show ?thesis
    proof (cases "fix_damaged original")
      case None
      from "2.IH"(2)[OF False None "2.prems"] False None show ?thesis by simp
    next
      case (Some fixed)
      from False have "\<forall>x \<in> set found. \<not> spans_overlap (start, stop, fixed) x"
        using overlaps_found_iff[of start stop found fixed] by simp
      then have "\<forall>x \<in> set found. \<not> spans_overlap x (start, stop, fixed)"
        using spans_overlap_sym by blast
      with "2.prems" have "sorted_wrt (\<lambda>a b. \<not> spans_overlap a b) (found @ [(start, stop, fixed)])"
        by (simp add: sorted_wrt_append)
      from "2.IH"(3)[OF False Some this] False Some show ?thesis by simp
    qed
  qed
qed

lemma add_damaged_nonempty:
  "\<forall>x \<in> set found. fst x < fst (snd x) \<Longrightarrow> \<forall>x \<in> set matches. fst x < fst (snd x) \<Longrightarrow>
     \<forall>x \<in> set (add_damaged found matches). fst x < fst (snd x)"
proof (induction found matches rule: add_damaged.induct)
  case (1 found)
  then show ?case by simp
next
  case (2 found start stop original rest_matches)
  from "2.prems"(2) have here: "start < stop"
    and rm: "\<forall>x \<in> set rest_matches. fst x < fst (snd x)"
    by simp_all
  show ?case
  proof (cases "overlaps_found start stop found")
    case True
    from "2.IH"(1)[OF True "2.prems"(1) rm] True show ?thesis by simp
  next
    case False
    show ?thesis
    proof (cases "fix_damaged original")
      case None
      from "2.IH"(2)[OF False None "2.prems"(1) rm] False None show ?thesis by simp
    next
      case (Some fixed)
      from "2.prems"(1) here
      have "\<forall>x \<in> set (found @ [(start, stop, fixed)]). fst x < fst (snd x)"
        by simp
      from "2.IH"(3)[OF False Some this rm] False Some show ?thesis by simp
    qed
  qed
qed

lemma add_damaged_keeps: "set found \<subseteq> set (add_damaged found matches)"
proof (induction found matches rule: add_damaged.induct)
  case (1 found)
  show ?case by simp
next
  case (2 found start stop original rest_matches)
  show ?case
  proof (cases "overlaps_found start stop found")
    case True
    from "2.IH"(1)[OF True] True show ?thesis by simp
  next
    case False
    show ?thesis
    proof (cases "fix_damaged original")
      case None
      from "2.IH"(2)[OF False None] False None show ?thesis by simp
    next
      case (Some fixed)
      from "2.IH"(3)[OF False Some] False Some show ?thesis by simp
    qed
  qed
qed

lemma insort_separate:
  "sorted_wrt (\<lambda>a b. \<not> spans_overlap a b) xs \<Longrightarrow> \<forall>y \<in> set xs. \<not> spans_overlap x y \<Longrightarrow>
     sorted_wrt (\<lambda>a b. \<not> spans_overlap a b) (insort_key f x xs)"
proof (induction xs)
  case Nil
  show ?case by simp
next
  case (Cons y ys)
  from Cons.prems(2) have "\<not> spans_overlap y x" using spans_overlap_sym by auto
  with Cons show ?case by (auto simp: set_insort_key)
qed

lemma sort_separate:
  "sorted_wrt (\<lambda>a b. \<not> spans_overlap a b) xs \<Longrightarrow>
     sorted_wrt (\<lambda>a b. \<not> spans_overlap a b) (sort_key f xs)"
proof (induction xs)
  case Nil
  show ?case by simp
next
  case (Cons x xs)
  then have "sorted_wrt (\<lambda>a b. \<not> spans_overlap a b) (sort_key f xs)"
    and "\<forall>y \<in> set (sort_key f xs). \<not> spans_overlap x y"
    by simp_all
  then show ?case by (simp add: insort_separate)
qed

lemma found_placeholders_sort: "found_placeholders text = sort_key fst (found_unsorted text)"
  by (simp add: found_placeholders_def found_unsorted_def)

lemma loops_invariant:
  assumes "\<forall>p \<in> set ps. consuming p"
    and "sorted_wrt (\<lambda>a b. \<not> spans_overlap a b) found"
    and "\<forall>x \<in> set found. fst x < fst (snd x)"
  shows "sorted_wrt (\<lambda>a b. \<not> spans_overlap a b)
       (foldl (\<lambda>found pattern. add_damaged found (re_finditer pattern text)) found ps)
     \<and> (\<forall>x \<in> set (foldl (\<lambda>found pattern. add_damaged found (re_finditer pattern text)) found ps).
          fst x < fst (snd x))
     \<and> set found \<subseteq> set (foldl (\<lambda>found pattern. add_damaged found (re_finditer pattern text))
          found ps)"
  using assms
proof (induction ps arbitrary: found)
  case Nil
  then show ?case by simp
next
  case (Cons p ps)
  from Cons.prems(1) have cp: "consuming p" and rest: "\<forall>p \<in> set ps. consuming p" by simp_all
  have a: "sorted_wrt (\<lambda>a b. \<not> spans_overlap a b) (add_damaged found (re_finditer p text))"
    by (rule add_damaged_separate[OF Cons.prems(2)])
  have b: "\<forall>x \<in> set (add_damaged found (re_finditer p text)). fst x < fst (snd x)"
    by (rule add_damaged_nonempty[OF Cons.prems(3) finditer_nonempty[OF cp]])
  from Cons.IH[OF rest a b] add_damaged_keeps[of found "re_finditer p text"]
  show ?case by auto
qed

lemma patterns_consuming:
  "consuming correct_pattern \<and> (\<forall>p \<in> set damaged_patterns. consuming p)"
  by (simp add: correct_pattern_def damaged_patterns_def plus_def opt_def)

lemma found_unsorted_invariant:
  "sorted_wrt (\<lambda>a b. \<not> spans_overlap a b) (found_unsorted text)
   \<and> (\<forall>x \<in> set (found_unsorted text). fst x < fst (snd x))
   \<and> set (re_finditer correct_pattern text) \<subseteq> set (found_unsorted text)"
proof -
  have chain: "sorted_wrt (\<lambda>a b. fst (snd a) \<le> fst b) (re_finditer correct_pattern text)"
    using spans_from_chain[of 0] by (simp add: re_finditer_def)
  have sep: "sorted_wrt (\<lambda>a b. \<not> spans_overlap a b) (re_finditer correct_pattern text)"
    by (rule sorted_wrt_mono_rel[OF _ chain]) (simp add: spans_overlap_def)
  have ne: "\<forall>x \<in> set (re_finditer correct_pattern text). fst x < fst (snd x)"
    using finditer_nonempty[of correct_pattern "text"] patterns_consuming by simp
  have dp: "\<forall>p \<in> set damaged_patterns. consuming p"
    using patterns_consuming by simp
  from loops_invariant[OF dp sep ne, of "text"] show ?thesis
    unfolding found_unsorted_def .
qed

lemma separate_distinct:
  assumes "sorted_wrt (\<lambda>a b. \<not> spans_overlap a b) xs" and "a \<in> set xs" and "b \<in> set xs"
    and "a \<noteq> b"
  shows "\<not> spans_overlap a b"
proof -
  from assms(2,3) obtain i j where i: "i < length xs" "xs ! i = a"
    and j: "j < length xs" "xs ! j = b"
    by (auto simp: in_set_conv_nth)
  with assms(4) have "i < j \<or> j < i" by (cases "i = j") auto
  then show ?thesis
  proof
    assume "i < j"
    from sorted_wrt_nth_less[OF assms(1) this j(1)] i j show ?thesis by simp
  next
    assume "j < i"
    from sorted_wrt_nth_less[OF assms(1) this i(1)] i j spans_overlap_sym show ?thesis by simp
  qed
qed

lemma found_placeholders_empty: "found_placeholders [] = []"
  by code_simp

text \<open>
  C5. For every text the scanner \<open>extract_from_text\<close> returns its occurrences by
  ascending start offset, each ending before the next one starts; every match of
  the well-formed pattern (found by the leftmost, non-overlapping scan of
  \<open>finditer\<close>) is among them, and every other occurrence, that is every damaged one,
  overlaps no well-formed match.
\<close>

theorem scanner_left_to_right:
  "sorted (map fst (found_placeholders text))
   \<and> (\<forall>i j. i < j \<and> j < length (found_placeholders text) \<longrightarrow>
        fst (snd (found_placeholders text ! i)) \<le> fst (found_placeholders text ! j))
   \<and> set (re_finditer correct_pattern text) \<subseteq> set (found_placeholders text)
   \<and> (\<forall>d \<in> set (found_placeholders text). d \<notin> set (re_finditer correct_pattern text) \<longrightarrow>
        (\<forall>w \<in> set (re_finditer correct_pattern text). \<not> spans_overlap d w))
   \<and> extract_from_text text = map (\<lambda>(_, _, placeholder). placeholder) (found_placeholders text)"
proof -
  let ?occ = "found_placeholders text"
  note inv = found_unsorted_invariant[of "text"]
  have srt: "sorted (map fst ?occ)"
    by (simp add: found_placeholders_sort)
  have sep: "sorted_wrt (\<lambda>a b. \<not> spans_overlap a b) ?occ"
    using inv by (simp add: found_placeholders_sort sort_separate)
  have ne: "\<forall>x \<in> set ?occ. fst x < fst (snd x)"
    using inv by (simp add: found_placeholders_sort)
  have wf: "set (re_finditer correct_pattern text) \<subseteq> set ?occ"
    using inv by (simp add: found_placeholders_sort)
  have order: "\<forall>i j. i < j \<and> j < length ?occ \<longrightarrow> fst (snd (?occ ! i)) \<le> fst (?occ ! j)"
  proof (intro allI impI)
    fix i j
    assume h: "i < j \<and> j < length ?occ"
    then have ij: "i < j" and j: "j < length ?occ" by simp_all
    from sorted_wrt_nth_less[OF sep ij j]
    have no: "fst (snd (?occ ! i)) \<le> fst (?occ ! j) \<or> fst (?occ ! i) \<ge> fst (snd (?occ ! j))"
      by (simp add: spans_overlap_def)
    from srt ij j have le: "fst (?occ ! i) \<le> fst (?occ ! j)"
      using sorted_nth_mono[of "map fst ?occ" i j] by simp
    from ne j have "fst (?occ ! j) < fst (snd (?occ ! j))" by simp
    with no le show "fst (snd (?occ ! i)) \<le> fst (?occ ! j)" by auto
  qed
  have prio: "\<forall>d \<in> set ?occ. d \<notin> set (re_finditer correct_pattern text) \<longrightarrow>
      (\<forall>w \<in> set (re_finditer correct_pattern text). \<not> spans_overlap d w)"
  proof (intro ballI impI)
    fix d w
    assume d: "d \<in> set ?occ" and nd: "d \<notin> set (re_finditer correct_pattern text)"
      and w: "w \<in> set (re_finditer correct_pattern text)"
    from w wf have w': "w \<in> set ?occ" by auto
    from nd w have "d \<noteq> w" by auto
    from separate_distinct[OF sep d w' this] show "\<not> spans_overlap d w" .
  qed
  have ext: "extract_from_text text = map (\<lambda>(_, _, placeholder). placeholder) ?occ"
    by (simp add: extract_from_text_def found_placeholders_empty)
  from srt order wf prio ext show ?thesis by blast
qed

lemma scanner_example:
  "found_placeholders ''a <<Eqn1>>, Eqn2>> b <<Eqn3 <<Eqn44>>>'' =
     [(2, 11, ''<<Eqn1>>,''), (12, 18, ''<<Eqn2>>''), (21, 27, ''<<Eqn3>>''),
      (28, 37, ''<<Eqn44>>'')]
   \<and> re_finditer correct_pattern ''a <<Eqn1>>, Eqn2>> b <<Eqn3 <<Eqn44>>>'' =
     [(2, 11, ''<<Eqn1>>,''), (28, 37, ''<<Eqn44>>'')]"
  by code_simp

theorem scanner_left_to_right_witness:
  "found_placeholders ''a <<Eqn1>>, Eqn2>> b <<Eqn3 <<Eqn44>>>'' =
     [(2, 11, ''<<Eqn1>>,''), (12, 18, ''<<Eqn2>>''), (21, 27, ''<<Eqn3>>''),
      (28, 37, ''<<Eqn44>>'')]
   \<and> re_finditer correct_pattern ''a <<Eqn1>>, Eqn2>> b <<Eqn3 <<Eqn44>>>'' =
     [(2, 11, ''<<Eqn1>>,''), (28, 37, ''<<Eqn44>>'')]
   \<and> sorted (map fst (found_placeholders ''a <<Eqn1>>, Eqn2>> b <<Eqn3 <<Eqn44>>>''))
   \<and> \<not> spans_overlap (12, 18, ''<<Eqn2>>'') (2, 11, ''<<Eqn1>>,'')
   \<and> extract_from_text ''a <<Eqn1>>, Eqn2>> b <<Eqn3 <<Eqn44>>>'' =
     [''<<Eqn1>>,'', ''<<Eqn2>>'', ''<<Eqn3>>'', ''<<Eqn44>>'']"
proof -
  note t = scanner_left_to_right[of "''a <<Eqn1>>, Eqn2>> b <<Eqn3 <<Eqn44>>>''"]
  from t have srt: "sorted (map fst (found_placeholders ''a <<Eqn1>>, Eqn2>> b <<Eqn3 <<Eqn44>>>''))"
    by blast
  from t have "\<forall>d \<in> set (found_placeholders ''a <<Eqn1>>, Eqn2>> b <<Eqn3 <<Eqn44>>>'').
      d \<notin> set (re_finditer correct_pattern ''a <<Eqn1>>, Eqn2>> b <<Eqn3 <<Eqn44>>>'') \<longrightarrow>
      (\<forall>w \<in> set (re_finditer correct_pattern ''a <<Eqn1>>, Eqn2>> b <<Eqn3 <<Eqn44>>>'').
        \<not> spans_overlap d w)"
    by blast
  then have no: "\<not> spans_overlap (12, 18, ''<<Eqn2>>'') (2, 11, ''<<Eqn1>>,'')"
    by (simp add: scanner_example)
  from t have "extract_from_text ''a <<Eqn1>>, Eqn2>> b <<Eqn3 <<Eqn44>>>'' =
      map (\<lambda>(_, _, placeholder). placeholder)
        (found_placeholders ''a <<Eqn1>>, Eqn2>> b <<Eqn3 <<Eqn44>>>'')"
    by blast
  then have ext: "extract_from_text ''a <<Eqn1>>, Eqn2>> b <<Eqn3 <<Eqn44>>>'' =
      [''<<Eqn1>>,'', ''<<Eqn2>>'', ''<<Eqn3>>'', ''<<Eqn44>>'']"
    by (simp add: scanner_example)
  from scanner_example srt no ext show ?thesis by blast
qed

section \<open>The rewrite of v4 over a whole document\<close>

subsection \<open>The loops as one pass over the paragraph objects in traversal order\<close>

lemma process_body_para_object: "process_body_para orig = rewrite_object orig"
proof (intro ext)
  fix state :: "string list \<times> (nat \<times> nat)" and para
  obtain texts st where s: "state = (texts, st)" by (cases state)
  show "process_body_para orig state para = rewrite_object orig state para"
  proof (cases "texts ! para \<noteq> [] \<and> contains ''Eqn'' (texts ! para)")
    case True
    obtain new_text st' where pt: "process_text orig st (texts ! para) = (new_text, st')"
      by (cases "process_text orig st (texts ! para)")
    have "new_text = texts ! para \<Longrightarrow> texts[para := new_text] = texts"
      by simp
    with True pt show ?thesis
      unfolding s by (auto simp: process_body_para_def rewrite_object_def process_para_def)
  next
    case False
    have "texts[para := texts ! para] = texts" by simp
    with False show ?thesis
      unfolding s by (auto simp: process_body_para_def rewrite_object_def process_para_def)
  qed
qed

lemma process_hf_para_object: "process_hf_para orig = rewrite_object orig"
proof (intro ext)
  fix state :: "string list \<times> (nat \<times> nat)" and para
  obtain texts st where s: "state = (texts, st)" by (cases state)
  show "process_hf_para orig state para = rewrite_object orig state para"
  proof (cases "texts ! para \<noteq> [] \<and> contains ''Eqn'' (texts ! para)")
    case True
    obtain new_text st' where pt: "process_text orig st (texts ! para) = (new_text, st')"
      by (cases "process_text orig st (texts ! para)")
    have "new_text = texts ! para \<Longrightarrow> texts[para := new_text] = texts"
      by simp
    with True pt show ?thesis
      unfolding s by (auto simp: process_hf_para_def rewrite_object_def process_para_def)
  next
    case False
    have "texts[para := texts ! para] = texts" by simp
    with False show ?thesis
      unfolding s by (auto simp: process_hf_para_def rewrite_object_def process_para_def)
  qed
qed

lemma process_parts_order:
  "process_parts orig doc =
     (doc\<lparr>para_texts :=
        fst (foldl (rewrite_object orig) (para_texts doc, (0, 0)) (restorer_order (places doc)))\<rparr>,
      snd (foldl (rewrite_object orig) (para_texts doc, (0, 0)) (restorer_order (places doc))))"
  by (simp add: process_parts_def process_body_para_object process_hf_para_object
      restorer_order_def foldl_tables foldl_sections Let_def)

lemma rewrite_objects_once:
  assumes "distinct paras" and "\<forall>para \<in> set paras. para < length texts"
  shows "map (\<lambda>para. fst (foldl (rewrite_object orig) (texts, st) paras) ! para) paras =
       fst (map_accum (process_para orig) st (map (\<lambda>para. texts ! para) paras))
     \<and> snd (foldl (rewrite_object orig) (texts, st) paras) =
       snd (map_accum (process_para orig) st (map (\<lambda>para. texts ! para) paras))
     \<and> length (fst (foldl (rewrite_object orig) (texts, st) paras)) = length texts
     \<and> (\<forall>para. para \<notin> set paras \<longrightarrow>
          fst (foldl (rewrite_object orig) (texts, st) paras) ! para = texts ! para)"
  using assms
proof (induction paras arbitrary: texts st)
  case Nil
  show ?case by simp
next
  case (Cons p ps)
  obtain new st1 where pp: "process_para orig st (texts ! p) = (new, st1)"
    by (cases "process_para orig st (texts ! p)")
  let ?texts1 = "texts[p := new]"
  have step: "rewrite_object orig (texts, st) p = (?texts1, st1)"
    by (simp add: rewrite_object_def pp)
  from Cons.prems have d: "distinct ps" and notin: "p \<notin> set ps"
    and range: "\<forall>para \<in> set ps. para < length ?texts1" and p: "p < length texts"
    by simp_all
  note IH = Cons.IH[OF d range, of st1]
  have same: "map (\<lambda>para. ?texts1 ! para) ps = map (\<lambda>para. texts ! para) ps"
  proof (rule map_cong[OF refl])
    fix x assume "x \<in> set ps"
    with notin have "x \<noteq> p" by auto
    then show "?texts1 ! x = texts ! x" by simp
  qed
  obtain news st2 where rest: "map_accum (process_para orig) st1 (map (\<lambda>para. texts ! para) ps) = (news, st2)"
    by (cases "map_accum (process_para orig) st1 (map (\<lambda>para. texts ! para) ps)")
  from IH notin p have here: "fst (foldl (rewrite_object orig) (?texts1, st1) ps) ! p = new"
    by simp
  from IH same rest here show ?case
    by (simp add: step pp nth_list_update)
qed

subsection \<open>The matches of the rewrite in a paragraph\<close>

lemma rewrite_segments_text:
  "rewrite_segments para = (segs, tail) \<Longrightarrow> weave (map fst segs) (map snd segs) tail = para"
  by (auto simp: rewrite_segments_def segments_text split: if_splits)

lemma process_para_chosen:
  assumes "rewrite_segments para = (segs, tail)"
  shows "process_para orig (i, n) para =
     (weave (map fst segs) (chosen orig i (map snd segs)) tail,
      (i + length segs, n + (min (length orig) (i + length segs) - min (length orig) i)))"
proof (cases "para \<noteq> [] \<and> contains ''Eqn'' para")
  case True
  with assms have "segments comprehensive_pattern para = (segs, tail)"
    by (simp add: rewrite_segments_def)
  from process_text_chosen[OF this] True show ?thesis
    by (simp add: process_para_def)
next
  case False
  with assms have "segs = []" "tail = para"
    by (auto simp: rewrite_segments_def)
  with False show ?thesis by (auto simp: process_para_def)
qed

lemma map_accum_process_para:
  "map_accum (process_para orig) (i, n) paras =
     (rewritten orig i paras,
      (i + length (concat (map rewrite_texts paras)),
       n + (min (length orig) (i + length (concat (map rewrite_texts paras)))
            - min (length orig) i)))"
proof (induction paras arbitrary: i n)
  case Nil
  show ?case by simp
next
  case (Cons para paras)
  obtain segs tail where seg: "rewrite_segments para = (segs, tail)"
    by (cases "rewrite_segments para")
  have ct: "rewrite_texts para = map snd segs"
    by (simp add: rewrite_texts_def seg)
  have cnt: "n + (min (length orig) (i + length segs) - min (length orig) i)
      + (min (length orig) (i + length segs + length (concat (map rewrite_texts paras)))
         - min (length orig) (i + length segs))
      = n + (min (length orig) (i + (length segs + length (concat (map rewrite_texts paras))))
         - min (length orig) i)"
    by (auto simp: min_def)
  show ?case
    using Cons.IH[of "i + length segs"
        "n + (min (length orig) (i + length segs) - min (length orig) i)"] cnt
    by (simp add: process_para_chosen[OF seg] seg ct add.assoc)
qed

lemma process_para_same:
  assumes "rewrite_texts para @ later = drop i orig"
  shows "fst (process_para orig (i, n) para) = para
     \<and> fst (snd (process_para orig (i, n) para)) = i + length (rewrite_texts para)"
proof -
  obtain segs tail where seg: "rewrite_segments para = (segs, tail)"
    by (cases "rewrite_segments para")
  have ct: "rewrite_texts para = map snd segs"
    by (simp add: rewrite_texts_def seg)
  from assms ct have cat: "map snd segs @ later = drop i orig" by simp
  then have tk: "take (length segs) (drop i orig) = map snd segs"
    by (metis append_eq_conv_conj length_map)
  have c: "chosen orig i (map snd segs) = map snd segs"
  proof (cases "segs = []")
    case True
    then show ?thesis by simp
  next
    case False
    with cat have "drop i orig \<noteq> []" by auto
    then have lt: "i < length orig" by simp
    from cat have "length (map snd segs) \<le> length (drop i orig)"
      by (metis length_append le_add1)
    with lt have "i + length (map snd segs) \<le> length orig" by simp
    from chosen_available[OF this] tk show ?thesis by simp
  qed
  show ?thesis
    by (simp add: process_para_chosen[OF seg] c rewrite_segments_text[OF seg] ct)
qed

lemma rewrite_objects_same:
  "concat (map rewrite_texts (map (\<lambda>para. texts ! para) paras)) = drop i orig \<Longrightarrow>
     fst (foldl (rewrite_object orig) (texts, (i, n)) paras) = texts"
proof (induction paras arbitrary: i n)
  case Nil
  show ?case by simp
next
  case (Cons p ps)
  from Cons.prems
  have cat: "rewrite_texts (texts ! p) @ concat (map rewrite_texts (map (\<lambda>para. texts ! para) ps))
      = drop i orig"
    by simp
  from process_para_same[OF cat, of n]
  obtain n' where pp: "process_para orig (i, n) (texts ! p) =
      (texts ! p, (i + length (rewrite_texts (texts ! p)), n'))"
    by (cases "process_para orig (i, n) (texts ! p)") auto
  have step: "rewrite_object orig (texts, (i, n)) p =
      (texts, (i + length (rewrite_texts (texts ! p)), n'))"
    by (simp add: rewrite_object_def pp)
  from cat have "concat (map rewrite_texts (map (\<lambda>para. texts ! para) ps)) =
      drop (i + length (rewrite_texts (texts ! p))) orig"
    by (metis append_eq_conv_conj drop_drop add.commute)
  from Cons.IH[OF this, of n'] show ?case
    by (simp add: step)
qed

subsection \<open>Replacing spans\<close>

lemma length_spans_from: "length (spans_from off segs) = length segs"
  by (induction segs arbitrary: off) auto

lemma rewrite_spans_segments:
  "rewrite_spans para =
     map (\<lambda>(start, stop, _). (start, stop)) (spans_from 0 (fst (rewrite_segments para)))"
  by (simp add: rewrite_spans_def rewrite_segments_def re_finditer_def)

lemma length_rewrite_spans: "length (rewrite_spans para) = length (rewrite_texts para)"
  by (simp add: rewrite_spans_segments rewrite_texts_def length_spans_from)

lemma replace_spans_Nil: "replace_spans [] news block = block"
  by (simp add: replace_spans_def)

lemma replace_spans_Cons:
  "replace_spans (span # spans) (new # news) block =
     splice span new (replace_spans spans news block)"
  by (simp add: replace_spans_def)

lemma weave_replace_spans:
  "length news = length segs \<Longrightarrow> length pre = off \<Longrightarrow>
     replace_spans (map (\<lambda>(start, stop, _). (start, stop)) (spans_from off segs)) news
       (pre @ weave (map fst segs) (map snd segs) tail) =
     pre @ weave (map fst segs) news tail"
proof (induction segs arbitrary: off pre news)
  case Nil
  then show ?case by (simp add: replace_spans_Nil)
next
  case (Cons seg segs)
  obtain g m where seg: "seg = (g, m)" by (cases seg)
  from Cons.prems(1) obtain new news' where news: "news = new # news'"
    and len: "length news' = length segs"
    by (cases news) auto
  have l: "length (pre @ g @ m) = off + length g + length m"
    using Cons.prems(2) by simp
  from Cons.IH[OF len l]
  have inner: "replace_spans
      (map (\<lambda>(start, stop, _). (start, stop)) (spans_from (off + length g + length m) segs))
      news' (pre @ g @ m @ weave (map fst segs) (map snd segs) tail) =
      pre @ g @ m @ weave (map fst segs) news' tail"
    by simp
  have "splice (off + length g, off + length g + length m) new
      (pre @ g @ m @ weave (map fst segs) news' tail) =
      pre @ g @ new @ weave (map fst segs) news' tail"
    using Cons.prems(2) by (simp add: splice_def)
  with inner show ?case
    by (simp add: seg news replace_spans_Cons)
qed

lemma weave_rewrite_spans:
  assumes "rewrite_segments para = (segs, tail)" and "length news = length segs"
  shows "weave (map fst segs) news tail = replace_spans (rewrite_spans para) news para"
  using weave_replace_spans[where pre="[]" and off=0 and tail=tail, OF assms(2)]
    rewrite_segments_text[OF assms(1)]
  by (simp add: rewrite_spans_segments assms(1))

lemma span_texts:
  "length pre = off \<Longrightarrow>
     map (\<lambda>(start, stop). take (stop - start)
            (drop start (pre @ weave (map fst segs) (map snd segs) tail)))
       (map (\<lambda>(start, stop, _). (start, stop)) (spans_from off segs)) = map snd segs"
proof (induction segs arbitrary: off pre)
  case Nil
  show ?case by simp
next
  case (Cons seg segs)
  obtain g m where seg: "seg = (g, m)" by (cases seg)
  have l: "length (pre @ g @ m) = off + length g + length m"
    using Cons.prems by simp
  from Cons.IH[OF l] Cons.prems show ?case
    by (simp add: seg)
qed

lemma rewrite_texts_spans:
  "rewrite_texts para =
     map (\<lambda>(start, stop). take (stop - start) (drop start para)) (rewrite_spans para)"
proof -
  obtain segs tail where seg: "rewrite_segments para = (segs, tail)"
    by (cases "rewrite_segments para")
  from span_texts[where pre="[]" and off=0 and segs=segs and tail=tail]
    rewrite_segments_text[OF seg]
  show ?thesis
    by (simp add: rewrite_spans_segments rewrite_texts_def seg)
qed

lemma agreed_texts:
  "rewrite_spans block = scanned_spans block \<Longrightarrow> rewrite_texts block = occurrence_texts block"
  by (simp add: rewrite_texts_spans occurrence_texts_def)




lemma rewritten_frame:
  "length (rewritten orig i paras) = length paras
   \<and> (\<forall>k < length paras. \<exists>news. length news = length (rewrite_spans (paras ! k))
        \<and> rewritten orig i paras ! k = replace_spans (rewrite_spans (paras ! k)) news (paras ! k))"
proof (induction paras arbitrary: i)
  case Nil
  show ?case by simp
next
  case (Cons para paras)
  obtain segs tail where seg: "rewrite_segments para = (segs, tail)"
    by (cases "rewrite_segments para")
  have n: "length (rewrite_spans para) = length segs"
    by (simp add: length_rewrite_spans rewrite_texts_def seg)
  have lc: "length (chosen orig i (map snd segs)) = length segs"
    by (simp add: length_chosen)
  from weave_rewrite_spans[OF seg lc]
  have hd: "weave (map fst segs) (chosen orig i (map snd segs)) tail =
      replace_spans (rewrite_spans para) (chosen orig i (map snd segs)) para" .
  note IH = Cons.IH[of "i + length segs"]
  show ?case
  proof (intro conjI allI impI)
    from IH show "length (rewritten orig i (para # paras)) = length (para # paras)"
      by (simp add: seg)
  next
    fix k assume k: "k < length (para # paras)"
    show "\<exists>news. length news = length (rewrite_spans ((para # paras) ! k))
        \<and> rewritten orig i (para # paras) ! k =
          replace_spans (rewrite_spans ((para # paras) ! k)) news ((para # paras) ! k)"
    proof (cases k)
      case 0
      with hd lc n show ?thesis
        by (auto simp: seg intro!: exI[of _ "chosen orig i (map snd segs)"])
    next
      case (Suc j)
      with k have "j < length paras" by simp
      with IH Suc show ?thesis by (simp add: seg)
    qed
  qed
qed

subsection \<open>\<open>process_document\<close> on a document whose paragraph objects are reached once\<close>

lemma process_parts_once:
  assumes "reached_once doc"
  shows "places (fst (process_parts orig doc)) = places doc
     \<and> blocks (fst (process_parts orig doc)) = rewritten orig 0 (blocks doc)
     \<and> snd (process_parts orig doc) =
         (length (concat (map rewrite_texts (blocks doc))),
          min (length orig) (length (concat (map rewrite_texts (blocks doc)))))
     \<and> length (para_texts (fst (process_parts orig doc))) = length (para_texts doc)
     \<and> (\<forall>para. para \<notin> set (restorer_order (places doc)) \<longrightarrow>
          para_texts (fst (process_parts orig doc)) ! para = para_texts doc ! para)"
proof -
  from assms have d: "distinct (restorer_order (places doc))"
    and r: "\<forall>para \<in> set (restorer_order (places doc)). para < length (para_texts doc)"
    by (simp_all add: reached_once_def)
  note once = rewrite_objects_once[OF d r, of orig "(0, 0)"]
  note acc = map_accum_process_para[of orig 0 0 "blocks doc"]
  have b: "map (\<lambda>para. para_texts doc ! para) (restorer_order (places doc)) = blocks doc"
    by (simp add: blocks_def)
  from once acc show ?thesis
    by (simp add: process_parts_order blocks_def)
qed

lemma v4_process_document_parts:
  assumes "v4_extract_placeholders_list original \<noteq> []"
  shows "v4_process_document (Some doc) (Some original) =
     \<lparr>v4_success = True,
      v4_message = ReplacedOf
        (snd (snd (process_parts (v4_extract_placeholders_list original) doc)))
        (fst (snd (process_parts (v4_extract_placeholders_list original) doc)))
        (length (v4_extract_placeholders_list original)),
      v4_saved = Some (fst (process_parts (v4_extract_placeholders_list original) doc))\<rparr>"
  using assms by (simp add: v4_process_document_def Let_def split: prod.splits)


lemma damaged_example_scanned:
  "v4_extract_placeholders_list (Some original_example) =
     [''<<Eqn1>>'', ''<<Eqn2.eps>>,'', ''<<Eqn3>>'', ''<<Eqn4>>'', ''<<Eqn5.eps>>'', ''<<Eqn6>>'']
   \<and> candidate_sequence damaged_example =
     [''<<Eqn1.eps>>'', ''<<Eqn2>>'', ''<<Eqn3>>'', ''<<Eqn4>>'', ''<<Eqn7>>'', ''<<Eqn5>>'']
   \<and> reached_once damaged_example
   \<and> rewrite_finds_scanned damaged_example"
  by code_simp





text \<open>
  Where the provisos on the v4 restorer do not hold. The test \<open>'Eqn' in para.text\<close>
  is case-sensitive while the patterns are not: the scanner finds \<open>EqN3>>\<close>, the
  rewrite leaves the paragraph alone and reports two of three replaced. A token
  without brackets is matched by the rewrite and not found by the scanner. A
  paragraph reached twice is rewritten twice, so it ends up with the later of two
  canonical texts.
\<close>

lemma rewrite_and_scanner_differ:
  "candidate_sequence spec_vector_example = [''<<Eqn1.eps>>'', ''<<Eqn2>>'', ''<<Eqn3>>'']
   \<and> v4_extract_placeholders_list (Some (one_paragraph ''<<Eqn1>> <<Eqn2.eps>> <<Eqn3>>'')) =
       [''<<Eqn1>>'', ''<<Eqn2.eps>>'', ''<<Eqn3>>'']
   \<and> v4_process_document (Some spec_vector_example)
         (Some (Some (one_paragraph ''<<Eqn1>> <<Eqn2.eps>> <<Eqn3>>''))) =
       \<lparr>v4_success = True, v4_message = ReplacedOf 2 2 3,
        v4_saved = Some (spec_vector_example\<lparr>para_texts :=
          [''<<Eqn1>>'', ''<<Eqn2.eps>>'', ''EqN3>>'']\<rparr>)\<rparr>
   \<and> candidate_sequence (one_object ''Eqn4 and Eqn5>>'') = [''<<Eqn5>>'']
   \<and> v4_process_document (Some (one_object ''Eqn4 and Eqn5>>''))
         (Some (Some (one_paragraph ''<<Eqn3>>''))) =
       \<lparr>v4_success = True, v4_message = ReplacedOf 1 2 1,
        v4_saved = Some (one_object ''<<Eqn3>>and Eqn5>>'')\<rparr>"
  by code_simp

lemma shared_paragraph_rewritten_twice:
  "candidate_sequence merged_cell_example = [''<<Eqn5>>'', ''<<Eqn5>>'']
   \<and> v4_extract_placeholders_list (Some (one_paragraph ''<<Eqn1>> and <<Eqn2.eps>>'')) =
       [''<<Eqn1>>'', ''<<Eqn2.eps>>'']
   \<and> v4_process_document (Some merged_cell_example)
         (Some (Some (one_paragraph ''<<Eqn1>> and <<Eqn2.eps>>''))) =
       \<lparr>v4_success = True, v4_message = ReplacedOf 2 2 2,
        v4_saved = Some (merged_cell_example\<lparr>para_texts := [''<<Eqn2.eps>>'']\<rparr>)\<rparr>"
  by code_simp

section \<open>Idempotence and frame\<close>

lemma apply_plan_same: "apply_plan (zip found found) content = content"
  by (induction found arbitrary: content) (simp_all add: apply_plan_def replace_first_same)

lemma apply_plan_absent:
  "\<forall>c \<in> set found. first_at (encode c) content = None \<Longrightarrow>
     apply_plan (zip found orig) content = content"
proof (induction found arbitrary: orig)
  case Nil
  show ?case by (simp add: apply_plan_def)
next
  case (Cons c found)
  show ?case
  proof (cases orig)
    case Nil
    then show ?thesis by (simp add: apply_plan_def)
  next
    case (Cons p orig')
    from Cons.prems have "replace_first (encode c) (encode p) content = content"
      by (simp add: replace_first_absent)
    with Cons.IH[of orig'] Cons.prems Cons show ?thesis
      by (simp add: apply_plan_Cons)
  qed
qed

lemma process_parts_same:
  assumes "concat (map rewrite_texts (blocks doc)) = orig"
  shows "fst (process_parts orig doc) = doc"
proof -
  from assms have "concat (map rewrite_texts
      (map (\<lambda>para. para_texts doc ! para) (restorer_order (places doc)))) = drop 0 orig"
    by (simp add: blocks_def)
  from rewrite_objects_same[OF this, of 0] show ?thesis
    by (simp add: process_parts_order)
qed

text \<open>
  C6, as amended. Let the matches of the rewrite pattern in every text block of the
  translated document be exactly the occurrences that the scanner finds there, and
  let the texts of these occurrences, in traversal order, be the canonical sequence.
  Then a run of v4 changes nothing: it saves the document it read (and saves nothing
  at all when both sequences are empty); this holds also when a paragraph object is
  reached more than once. For the batch script, let the translated document have the
  placeholders of the original and let its candidate pattern find exactly these;
  then the script writes the bytes it read.
\<close>

theorem reconciliation_idempotent:
  "(rewrite_finds_scanned doc
      \<and> concat (map occurrence_texts (blocks doc)) = v4_extract_placeholders_list original \<longrightarrow>
      v4_saved (v4_process_document (Some doc) (Some original)) =
        (if v4_extract_placeholders_list original = [] then None else Some doc))
   \<and> (batch_canonical translated = batch_canonical batch_original
      \<and> batch_candidates translated = batch_canonical translated \<longrightarrow>
      success (batch_process_document (Some batch_original) (Some translated)
        binary_content force_mode)
      \<and> written (batch_process_document (Some batch_original) (Some translated)
        binary_content force_mode) = Some binary_content)"
proof (intro conjI impI)
  let ?C = "v4_extract_placeholders_list original"
  assume h: "rewrite_finds_scanned doc
      \<and> concat (map occurrence_texts (blocks doc)) = ?C"
  then have agreed: "\<forall>block \<in> set (blocks doc). rewrite_spans block = scanned_spans block"
    and eq: "concat (map occurrence_texts (blocks doc)) = ?C"
    by (simp_all add: rewrite_finds_scanned_def)
  have "map rewrite_texts (blocks doc) = map occurrence_texts (blocks doc)"
    using agreed by (intro map_cong refl) (simp add: agreed_texts)
  with eq have same: "concat (map rewrite_texts (blocks doc)) = ?C" by (simp only:)
  show "v4_saved (v4_process_document (Some doc) (Some original)) =
      (if ?C = [] then None else Some doc)"
  proof (cases "?C = []")
    case True
    then show ?thesis by (simp add: v4_process_document_def)
  next
    case False
    from v4_process_document_parts[OF False, of doc] process_parts_same[OF same] False
    show ?thesis by simp
  qed
next
  assume h: "batch_canonical translated = batch_canonical batch_original
      \<and> batch_candidates translated = batch_canonical translated"
  then have eq: "batch_candidates translated = batch_canonical batch_original" by simp
  have both: "success (batch_process_document (Some batch_original) (Some translated)
        binary_content force_mode)
      \<and> written (batch_process_document (Some batch_original) (Some translated)
        binary_content force_mode) = Some binary_content"
  proof (cases "batch_canonical batch_original = []")
    case True
    with eq show ?thesis
      by (simp add: batch_process_document_def get_all_text_from_docx_def Let_def
          batch_canonical_def[symmetric] batch_candidates_def[symmetric])
  next
    case False
    from batch_process_document_patch[OF False, of translated force_mode binary_content] eq
    show ?thesis by (simp add: apply_plan_same)
  qed
  from both show "success (batch_process_document (Some batch_original) (Some translated)
        binary_content force_mode)"
    by simp
  from both show "written (batch_process_document (Some batch_original) (Some translated)
        binary_content force_mode) = Some binary_content"
    by simp
qed

lemma reconciled_example_scanned:
  "rewrite_finds_scanned reconciled_example
   \<and> concat (map occurrence_texts (blocks reconciled_example)) =
       [''<<Eqn1>>'', ''<<Eqn2.eps>>'', ''<<Eqn3>>,'', ''<<Eqn3>>,'']
   \<and> v4_extract_placeholders_list (Some reconciled_original) =
       [''<<Eqn1>>'', ''<<Eqn2.eps>>'', ''<<Eqn3>>,'', ''<<Eqn3>>,'']
   \<and> batch_candidates (one_paragraph ''see<<Eqn1>>and<<Eqn2.eps>>.'') =
       [''<<Eqn1>>'', ''<<Eqn2.eps>>'']
   \<and> batch_canonical (one_paragraph ''see<<Eqn1>>and<<Eqn2.eps>>.'') =
       [''<<Eqn1>>'', ''<<Eqn2.eps>>'']"
  by code_simp

lemma first_run_example:
  "v4_saved (v4_process_document (Some damaged_example) (Some (Some original_example))) =
     Some first_run_example
   \<and> rewrite_finds_scanned first_run_example
   \<and> concat (map occurrence_texts (blocks first_run_example)) =
       [''<<Eqn1>>'', ''<<Eqn2.eps>>,'', ''<<Eqn3>>'', ''<<Eqn4>>'', ''<<Eqn5.eps>>'', ''<<Eqn6>>'']"
  by code_simp

theorem reconciliation_idempotent_witness:
  "rewrite_finds_scanned reconciled_example
   \<and> concat (map occurrence_texts (blocks reconciled_example)) =
       v4_extract_placeholders_list (Some reconciled_original)
   \<and> v4_extract_placeholders_list (Some reconciled_original) \<noteq> []
   \<and> v4_saved (v4_process_document (Some reconciled_example) (Some (Some reconciled_original))) =
       Some reconciled_example
   \<and> v4_saved (v4_process_document (Some damaged_example) (Some (Some original_example))) =
       Some first_run_example
   \<and> rewrite_finds_scanned first_run_example
   \<and> concat (map occurrence_texts (blocks first_run_example)) =
       v4_extract_placeholders_list (Some original_example)
   \<and> v4_saved (v4_process_document (Some first_run_example) (Some (Some original_example))) =
       Some first_run_example
   \<and> batch_candidates (one_paragraph ''see<<Eqn1>>and<<Eqn2.eps>>.'') =
       batch_canonical (one_paragraph ''see<<Eqn1>>and<<Eqn2.eps>>.'')
   \<and> written (batch_process_document (Some (one_paragraph ''see<<Eqn1>>and<<Eqn2.eps>>.''))
         (Some (one_paragraph ''see<<Eqn1>>and<<Eqn2.eps>>.''))
         ''see<<Eqn1>>and<<Eqn2.eps>>.'' False) = Some ''see<<Eqn1>>and<<Eqn2.eps>>.''"
  using reconciliation_idempotent[of reconciled_example "Some reconciled_original"
      "one_paragraph ''see<<Eqn1>>and<<Eqn2.eps>>.''"
      "one_paragraph ''see<<Eqn1>>and<<Eqn2.eps>>.''" "''see<<Eqn1>>and<<Eqn2.eps>>.''" False]
    reconciliation_idempotent[of first_run_example "Some original_example"
      "one_paragraph ''see<<Eqn1>>and<<Eqn2.eps>>.''"
      "one_paragraph ''see<<Eqn1>>and<<Eqn2.eps>>.''" "''see<<Eqn1>>and<<Eqn2.eps>>.''" False]
    reconciled_example_scanned first_run_example damaged_example_scanned
  by simp

text \<open>
  A document reconciled against itself: its candidate sequence is the canonical
  sequence, and the run still changes the text. The rewrite pattern of v4 takes the
  blank behind \<open><<Eqn1>>,\<close> into its match, and the candidate pattern of the batch
  script takes in the comma, the blank and the brackets between the two
  placeholders.
\<close>

theorem reconciled_against_itself_changes:
  "v4_extract_placeholders_list (Some (one_paragraph ''<<Eqn1>>, <<Eqn2>>'')) =
     [''<<Eqn1>>,'', ''<<Eqn2>>'']
   \<and> candidate_sequence (one_object ''<<Eqn1>>, <<Eqn2>>'') = [''<<Eqn1>>,'', ''<<Eqn2>>'']
   \<and> concat (map occurrence_texts (blocks (one_object ''<<Eqn1>>, <<Eqn2>>''))) =
       [''<<Eqn1>>,'', ''<<Eqn2>>'']
   \<and> v4_process_document (Some (one_object ''<<Eqn1>>, <<Eqn2>>''))
         (Some (Some (one_paragraph ''<<Eqn1>>, <<Eqn2>>''))) =
       \<lparr>v4_success = True, v4_message = ReplacedOf 2 2 2,
        v4_saved = Some (one_object ''<<Eqn1>>,<<Eqn2>>'')\<rparr>
   \<and> batch_canonical (one_paragraph ''<<Eqn1>>, <<Eqn2>>'') = [''<<Eqn1>>'', ''<<Eqn2>>'']
   \<and> batch_process_document (Some (one_paragraph ''<<Eqn1>>, <<Eqn2>>''))
         (Some (one_paragraph ''<<Eqn1>>, <<Eqn2>>'')) ''<w:t><<Eqn1>>, <<Eqn2>></w:t>'' False =
       \<lparr>success = True, message = ReplacedCount 2,
        written = Some ''<w:t><<Eqn1>><<Eqn2>></w:t>'', printed = []\<rparr>"
  by code_simp

lemma process_parts_frame:
  assumes "reached_once doc" and "para \<in> set (restorer_order (places doc))"
  shows "\<exists>news. length news = length (rewrite_spans (para_texts doc ! para))
     \<and> para_texts (fst (process_parts orig doc)) ! para =
         replace_spans (rewrite_spans (para_texts doc ! para)) news (para_texts doc ! para)"
proof -
  let ?order = "restorer_order (places doc)"
  from assms(2) obtain k where k: "k < length ?order" "?order ! k = para"
    by (auto simp: in_set_conv_nth)
  note parts = process_parts_once[OF assms(1), of orig]
  from parts have pl: "places (fst (process_parts orig doc)) = places doc"
    and bl: "blocks (fst (process_parts orig doc)) = rewritten orig 0 (blocks doc)"
    by simp_all
  from k have before: "blocks doc ! k = para_texts doc ! para"
    by (simp add: blocks_def)
  from k pl have "blocks (fst (process_parts orig doc)) ! k =
      para_texts (fst (process_parts orig doc)) ! para"
    by (simp add: blocks_def)
  with bl have after: "rewritten orig 0 (blocks doc) ! k =
      para_texts (fst (process_parts orig doc)) ! para"
    by simp
  from k have "k < length (blocks doc)" by (simp add: blocks_def)
  with rewritten_frame[of orig 0 "blocks doc"]
  obtain news where "length news = length (rewrite_spans (blocks doc ! k))"
    and "rewritten orig 0 (blocks doc) ! k =
      replace_spans (rewrite_spans (blocks doc ! k)) news (blocks doc ! k)"
    by blast
  with before after show ?thesis by auto
qed

lemma process_para_frame:
  "\<exists>news. length news = length (rewrite_spans para)
     \<and> fst (process_para orig st para) = replace_spans (rewrite_spans para) news para"
proof -
  obtain i n where st: "st = (i, n)" by (cases st)
  obtain segs tail where seg: "rewrite_segments para = (segs, tail)"
    by (cases "rewrite_segments para")
  have n: "length (rewrite_spans para) = length segs"
    by (simp add: length_rewrite_spans rewrite_texts_def seg)
  have lc: "length (chosen orig i (map snd segs)) = length segs"
    by (simp add: length_chosen)
  from weave_rewrite_spans[OF seg lc] process_para_chosen[OF seg, of orig i n] lc n
  show ?thesis
    unfolding st by (auto intro!: exI[of _ "chosen orig i (map snd segs)"])
qed

text \<open>
  C9, as amended. A visit of a paragraph by a loop of \<open>process_document\<close> of v4
  changes the text of no other paragraph, and where the matches of the rewrite
  pattern in the paragraph are exactly the occurrences that the scanner finds, it
  changes the text only inside the spans of these occurrences. In a document whose
  paragraph objects are each reached once, the saved text of every such paragraph is
  the text read with one text in the place of each occurrence span; it is the text
  read when there is no occurrence; and a paragraph object that the loops do not
  reach keeps its text. A step of the batch script changes the file only in the span
  where the bytes of the candidate first occur; when every replacement lands on its
  own occurrence (\<open>lands\<close>), the bytes between the candidates and behind the last one
  are those of the file read; and a file in which no candidate occurs stays as it is.
\<close>

theorem changes_only_occurrence_spans:
  "(rewrite_spans (texts ! visited) = scanned_spans (texts ! visited) \<longrightarrow>
      (\<exists>news. length news = length (scanned_spans (texts ! visited))
         \<and> fst (process_body_para orig (texts, st) visited) =
             texts[visited := replace_spans (scanned_spans (texts ! visited)) news
               (texts ! visited)])
      \<and> (\<exists>news. length news = length (scanned_spans (texts ! visited))
         \<and> fst (process_hf_para orig (texts, st) visited) =
             texts[visited := replace_spans (scanned_spans (texts ! visited)) news
               (texts ! visited)]))
   \<and> (v4_extract_placeholders_list original \<noteq> [] \<and> reached_once doc \<longrightarrow>
      v4_saved (v4_process_document (Some doc) (Some original)) =
        Some (fst (process_parts (v4_extract_placeholders_list original) doc))
      \<and> places (fst (process_parts (v4_extract_placeholders_list original) doc)) = places doc
      \<and> length (para_texts (fst (process_parts (v4_extract_placeholders_list original) doc))) =
          length (para_texts doc)
      \<and> (\<forall>para \<in> set (restorer_order (places doc)).
           rewrite_spans (para_texts doc ! para) = scanned_spans (para_texts doc ! para) \<longrightarrow>
           (\<exists>news. length news = length (scanned_spans (para_texts doc ! para))
              \<and> para_texts (fst (process_parts (v4_extract_placeholders_list original) doc)) ! para =
                  replace_spans (scanned_spans (para_texts doc ! para)) news
                    (para_texts doc ! para)))
      \<and> (\<forall>para \<in> set (restorer_order (places doc)).
           rewrite_spans (para_texts doc ! para) = scanned_spans (para_texts doc ! para)
           \<and> scanned_spans (para_texts doc ! para) = [] \<longrightarrow>
           para_texts (fst (process_parts (v4_extract_placeholders_list original) doc)) ! para =
             para_texts doc ! para)
      \<and> (\<forall>para. para \<notin> set (restorer_order (places doc)) \<longrightarrow>
           para_texts (fst (process_parts (v4_extract_placeholders_list original) doc)) ! para =
             para_texts doc ! para))
   \<and> (first_at (encode c) content = Some k \<longrightarrow>
      replace_first (encode c) (encode p) content =
        take k content @ encode p @ drop (k + length (encode c)) content)
   \<and> (first_at (encode c) content = None \<longrightarrow>
      replace_first (encode c) (encode p) content = content)
   \<and> (length gaps = length found \<and> length found = length canonical
        \<and> lands [] gaps found canonical \<longrightarrow>
      apply_plan (zip found canonical) (weave gaps (map encode found) tail) =
        weave gaps (map encode canonical) tail)
   \<and> ((\<forall>c \<in> set found. first_at (encode c) content = None) \<longrightarrow>
      apply_plan (zip found canonical) content = content)"
proof (intro conjI impI ballI allI)
  assume agreed: "rewrite_spans (texts ! visited) = scanned_spans (texts ! visited)"
  from process_para_frame[of "texts ! visited" orig st] agreed
  obtain news where news: "length news = length (scanned_spans (texts ! visited))"
    "fst (process_para orig st (texts ! visited)) =
      replace_spans (scanned_spans (texts ! visited)) news (texts ! visited)"
    by auto
  have "fst (rewrite_object orig (texts, st) visited) =
      texts[visited := replace_spans (scanned_spans (texts ! visited)) news (texts ! visited)]"
    by (simp add: rewrite_object_def news(2))
  with news(1)
  show "\<exists>news. length news = length (scanned_spans (texts ! visited))
      \<and> fst (process_body_para orig (texts, st) visited) =
          texts[visited := replace_spans (scanned_spans (texts ! visited)) news
            (texts ! visited)]"
    and "\<exists>news. length news = length (scanned_spans (texts ! visited))
      \<and> fst (process_hf_para orig (texts, st) visited) =
          texts[visited := replace_spans (scanned_spans (texts ! visited)) news
            (texts ! visited)]"
    by (auto simp: process_body_para_object process_hf_para_object)
next
  let ?C = "v4_extract_placeholders_list original"
  assume h: "?C \<noteq> [] \<and> reached_once doc"
  then have ne: "?C \<noteq> []" and once: "reached_once doc" by simp_all
  note parts = process_parts_once[OF once, of ?C]
  from v4_process_document_parts[OF ne, of doc]
  show "v4_saved (v4_process_document (Some doc) (Some original)) =
      Some (fst (process_parts ?C doc))"
    by simp
  from parts show "places (fst (process_parts ?C doc)) = places doc" by simp
  from parts show "length (para_texts (fst (process_parts ?C doc))) = length (para_texts doc)"
    by simp
  {
    fix para assume p: "para \<in> set (restorer_order (places doc))"
      and agreed: "rewrite_spans (para_texts doc ! para) = scanned_spans (para_texts doc ! para)"
    from process_parts_frame[OF once p, of ?C] agreed
    show "\<exists>news. length news = length (scanned_spans (para_texts doc ! para))
        \<and> para_texts (fst (process_parts ?C doc)) ! para =
            replace_spans (scanned_spans (para_texts doc ! para)) news (para_texts doc ! para)"
      by simp
  }
  {
    fix para assume p: "para \<in> set (restorer_order (places doc))"
      and none: "rewrite_spans (para_texts doc ! para) = scanned_spans (para_texts doc ! para)
        \<and> scanned_spans (para_texts doc ! para) = []"
    from process_parts_frame[OF once p, of ?C] none
    show "para_texts (fst (process_parts ?C doc)) ! para = para_texts doc ! para"
      by (auto simp: replace_spans_Nil)
  }
  {
    fix para assume "para \<notin> set (restorer_order (places doc))"
    with parts show "para_texts (fst (process_parts ?C doc)) ! para = para_texts doc ! para"
      by simp
  }
next
  assume "first_at (encode c) content = Some k"
  then show "replace_first (encode c) (encode p) content =
      take k content @ encode p @ drop (k + length (encode c)) content"
    by (rule replace_first_at)
next
  assume "first_at (encode c) content = None"
  then show "replace_first (encode c) (encode p) content = content"
    by (rule replace_first_absent)
next
  assume "length gaps = length found \<and> length found = length canonical
      \<and> lands [] gaps found canonical"
  then have l1: "length gaps = length found" and l2: "length found = length canonical"
    and l: "lands [] gaps found canonical"
    by simp_all
  from apply_plan_lands[OF l1 l2 l, of tail]
  show "apply_plan (zip found canonical) (weave gaps (map encode found) tail) =
      weave gaps (map encode canonical) tail"
    by simp
next
  assume "\<forall>c \<in> set found. first_at (encode c) content = None"
  then show "apply_plan (zip found canonical) content = content"
    by (rule apply_plan_absent)
qed

theorem changes_only_occurrence_spans_witness:
  "rewrite_spans (para_texts frame_example ! 3) = scanned_spans (para_texts frame_example ! 3)
   \<and> scanned_spans ''(Eqn4>>)'' = [(1, 7)]
   \<and> fst (process_body_para [''<<Eqn1.eps>>'', ''<<Eqn2>>,'', ''<<Eqn3>>'']
         (para_texts frame_example, (2, 2)) 3) =
       [''see Eqn1>> and <<Eqn2, ok'', ''no formula here'', ''Eqn9 in a header table'',
        ''(<<Eqn3>>)'']
   \<and> (\<exists>news. length news = length [(1::nat, 7::nat)]
        \<and> ''(<<Eqn3>>)'' = replace_spans [(1, 7)] news ''(Eqn4>>)'')
   \<and> v4_extract_placeholders_list (Some (one_paragraph ''<<Eqn1.eps>> <<Eqn2>>, <<Eqn3>>'')) \<noteq> []
   \<and> reached_once frame_example
   \<and> v4_saved (v4_process_document (Some frame_example)
         (Some (Some (one_paragraph ''<<Eqn1.eps>> <<Eqn2>>, <<Eqn3>>'')))) =
       Some (frame_example\<lparr>para_texts :=
         [''see <<Eqn1.eps>>and <<Eqn2>>,ok'', ''no formula here'', ''Eqn9 in a header table'',
          ''(<<Eqn3>>)'']\<rparr>)
   \<and> rewrite_spans ''no formula here'' = []
   \<and> scanned_spans ''no formula here'' = []
   \<and> 2 \<notin> set (restorer_order (places frame_example))
   \<and> first_at (encode ''Eqn1>>'') ''see Eqn1>> and'' = Some 4
   \<and> replace_first (encode ''Eqn1>>'') (encode ''<<Eqn1>>'') ''see Eqn1>> and'' =
       ''see <<Eqn1>> and''
   \<and> lands [] [''<w:t>'', ''</w:t><w:t>''] [''Eqn3>>'', ''Eqn4>>''] [''<<Eqn3>>'', ''<<Eqn4.eps>>'']
   \<and> apply_plan (zip [''Eqn3>>'', ''Eqn4>>''] [''<<Eqn3>>'', ''<<Eqn4.eps>>''])
         ''<w:t>Eqn3>></w:t><w:t>Eqn4>></w:t>'' =
       ''<w:t><<Eqn3>></w:t><w:t><<Eqn4.eps>></w:t>''
   \<and> first_at (encode ''Eqn9'') ''see Eqn1>> and'' = None
   \<and> apply_plan (zip [''Eqn9''] [''<<Eqn9>>'']) ''see Eqn1>> and'' = ''see Eqn1>> and''"
proof -
  let ?O = "Some (one_paragraph ''<<Eqn1.eps>> <<Eqn2>>, <<Eqn3>>'')"
  let ?C = "[''<<Eqn1.eps>>'', ''<<Eqn2>>,'', ''<<Eqn3>>'']"
  let ?saved = "fst (process_parts (v4_extract_placeholders_list ?O) frame_example)"
  note t1 = changes_only_occurrence_spans[where texts = "para_texts frame_example"
      and visited = 3 and orig = ?C and st = "(2, 2)"
      and original = "?O" and doc = frame_example
      and c = "''Eqn1>>''" and content = "''see Eqn1>> and''" and k = 4 and p = "''<<Eqn1>>''"
      and gaps = "[''<w:t>'', ''</w:t><w:t>'']" and found = "[''Eqn3>>'', ''Eqn4>>'']"
      and canonical = "[''<<Eqn3>>'', ''<<Eqn4.eps>>'']" and tail = "''</w:t>''"]
  note t2 = changes_only_occurrence_spans[where texts = "para_texts frame_example"
      and visited = 1 and orig = ?C and st = "(2, 2)"
      and original = "?O" and doc = frame_example
      and c = "''Eqn9''" and content = "''see Eqn1>> and''" and k = 4 and p = "''<<Eqn9>>''"
      and gaps = "[]" and found = "[''Eqn9'']" and canonical = "[''<<Eqn9>>'']" and tail = "[]"]
  have hyp: "v4_extract_placeholders_list ?O \<noteq> [] \<and> reached_once frame_example"
    by code_simp
  have run: "?saved = frame_example\<lparr>para_texts :=
      [''see <<Eqn1.eps>>and <<Eqn2>>,ok'', ''no formula here'', ''Eqn9 in a header table'',
       ''(<<Eqn3>>)'']\<rparr>"
    by code_simp
  have order: "3 \<in> set (restorer_order (places frame_example))
      \<and> 1 \<in> set (restorer_order (places frame_example))
      \<and> 2 \<notin> set (restorer_order (places frame_example))"
    by code_simp
  have b1: "para_texts frame_example ! 3 = ''(Eqn4>>)''"
    by code_simp
  have b3: "rewrite_spans ''(Eqn4>>)'' = [(1, 7)]"
    by code_simp
  have b4: "scanned_spans ''(Eqn4>>)'' = [(1, 7)]"
    by code_simp
  have b5: "rewrite_spans ''no formula here'' = []"
    by code_simp
  have b6: "scanned_spans ''no formula here'' = []"
    by code_simp
  have a3: "para_texts ?saved ! 3 = ''(<<Eqn3>>)''"
    by code_simp
  have step: "fst (process_body_para ?C (para_texts frame_example, (2, 2)) 3) =
      [''see Eqn1>> and <<Eqn2, ok'', ''no formula here'', ''Eqn9 in a header table'',
       ''(<<Eqn3>>)'']"
    by code_simp
  have f1: "first_at (encode ''Eqn1>>'') ''see Eqn1>> and'' = Some 4"
    by code_simp
  have f2: "first_at (encode ''Eqn9'') ''see Eqn1>> and'' = None"
    by code_simp
  have w3: "take 4 ''see Eqn1>> and'' @ encode ''<<Eqn1>>'' @
      drop (4 + length (encode ''Eqn1>>'')) ''see Eqn1>> and'' = ''see <<Eqn1>> and''"
    by code_simp
  have l: "length [''<w:t>'', ''</w:t><w:t>''] = length [''Eqn3>>'', ''Eqn4>>'']
      \<and> length [''Eqn3>>'', ''Eqn4>>''] = length [''<<Eqn3>>'', ''<<Eqn4.eps>>'']
      \<and> lands [] [''<w:t>'', ''</w:t><w:t>''] [''Eqn3>>'', ''Eqn4>>'']
          [''<<Eqn3>>'', ''<<Eqn4.eps>>'']"
    by code_simp
  have w4: "weave [''<w:t>'', ''</w:t><w:t>''] (map encode [''Eqn3>>'', ''Eqn4>>'']) ''</w:t>'' =
      ''<w:t>Eqn3>></w:t><w:t>Eqn4>></w:t>''"
    by code_simp
  have w5: "weave [''<w:t>'', ''</w:t><w:t>''] (map encode [''<<Eqn3>>'', ''<<Eqn4.eps>>''])
      ''</w:t>'' = ''<w:t><<Eqn3>></w:t><w:t><<Eqn4.eps>></w:t>''"
    by code_simp
  have agreed: "rewrite_spans (para_texts frame_example ! 3) =
      scanned_spans (para_texts frame_example ! 3)"
    by (simp only: b1 b3 b4)
  from t1 hyp have saved: "v4_saved (v4_process_document (Some frame_example) (Some ?O)) =
      Some ?saved"
    by blast
  from t1 hyp order agreed
  have "\<exists>news. length news = length (scanned_spans (para_texts frame_example ! 3))
      \<and> para_texts ?saved ! 3 =
          replace_spans (scanned_spans (para_texts frame_example ! 3)) news
            (para_texts frame_example ! 3)"
    by blast
  then have r3: "\<exists>news. length news = length [(1::nat, 7::nat)]
      \<and> ''(<<Eqn3>>)'' = replace_spans [(1, 7)] news ''(Eqn4>>)''"
    by (simp only: b1 b4 a3)
  from t1 f1 have r4: "replace_first (encode ''Eqn1>>'') (encode ''<<Eqn1>>'') ''see Eqn1>> and'' =
      take 4 ''see Eqn1>> and'' @ encode ''<<Eqn1>>'' @
        drop (4 + length (encode ''Eqn1>>'')) ''see Eqn1>> and''"
    by blast
  from t1 l have "apply_plan (zip [''Eqn3>>'', ''Eqn4>>''] [''<<Eqn3>>'', ''<<Eqn4.eps>>''])
      (weave [''<w:t>'', ''</w:t><w:t>''] (map encode [''Eqn3>>'', ''Eqn4>>'']) ''</w:t>'') =
      weave [''<w:t>'', ''</w:t><w:t>''] (map encode [''<<Eqn3>>'', ''<<Eqn4.eps>>'']) ''</w:t>''"
    by blast
  then have r5: "apply_plan (zip [''Eqn3>>'', ''Eqn4>>''] [''<<Eqn3>>'', ''<<Eqn4.eps>>''])
      ''<w:t>Eqn3>></w:t><w:t>Eqn4>></w:t>'' = ''<w:t><<Eqn3>></w:t><w:t><<Eqn4.eps>></w:t>''"
    by (simp only: w4 w5)
  have "\<forall>c \<in> set [''Eqn9'']. first_at (encode c) ''see Eqn1>> and'' = None"
    using f2 by simp
  with t2 have r6: "apply_plan (zip [''Eqn9''] [''<<Eqn9>>'']) ''see Eqn1>> and'' =
      ''see Eqn1>> and''"
    by blast
  from agreed b4 step r3 hyp saved[unfolded run] b5 b6 order f1 r4[unfolded w3] l r5 f2 r6
  show ?thesis by blast
qed

text \<open>
  Text outside every scanned occurrence that a run changes. In
  \<open>see <<Eqn1>> and\<close> the scanner finds the occurrence in the span from 4 to 12, and
  v4 removes the blank at 12 with it; in \<open>see Eqn5 here\<close> the scanner finds nothing,
  and v4 puts a placeholder in the place of \<open>Eqn5\<close> and the blank behind it. The batch
  script removes the blanks on both sides of \<open>Eqn5>>\<close>.
\<close>

theorem text_outside_occurrence_changed:
  "scanned_spans ''see <<Eqn1>> and'' = [(4, 12)]
   \<and> v4_extract_placeholders_list (Some (one_paragraph ''see <<Eqn1>> and'')) = [''<<Eqn1>>'']
   \<and> v4_saved (v4_process_document (Some (one_object ''see <<Eqn1>> and''))
         (Some (Some (one_paragraph ''see <<Eqn1>> and'')))) =
       Some (one_object ''see <<Eqn1>>and'')
   \<and> scanned_spans ''see Eqn5 here'' = []
   \<and> v4_saved (v4_process_document (Some (one_object ''see Eqn5 here''))
         (Some (Some (one_paragraph ''see <<Eqn1>> and'')))) =
       Some (one_object ''see <<Eqn1>>here'')
   \<and> batch_canonical (one_paragraph ''<<Eqn5>>'') = [''<<Eqn5>>'']
   \<and> batch_candidates (one_paragraph ''see Eqn5>> here'') = ['' Eqn5>> '']
   \<and> written (batch_process_document (Some (one_paragraph ''<<Eqn5>>''))
         (Some (one_paragraph ''see Eqn5>> here'')) ''<w:t>see Eqn5>> here</w:t>'' False) =
       Some ''<w:t>see<<Eqn5>>here</w:t>''"
  by code_simp

section \<open>The repair of a damaged occurrence\<close>

lemma first_match_first_end: "first_match r False st = first_end r st"
  by (cases "ms r st") (simp_all add: first_match_def first_end_def)

lemma first_end_Seq:
  "first_end a st = Some x \<Longrightarrow> first_end b x = Some y \<Longrightarrow> first_end (Seq a b) st = Some y"
  by (auto simp: first_end_def split: list.splits)

lemma first_end_lit: "first_end (lit s) (pre, s @ r) = Some (rev s @ pre, r)"
proof (induction s arbitrary: pre rule: lit.induct)
  case 1
  show ?case by (simp add: first_end_def)
next
  case (2 c)
  show ?case by (simp add: first_end_def)
next
  case (3 c c' cs)
  have a: "first_end (Chr c) (pre, (c # c' # cs) @ r) = Some (c # pre, (c' # cs) @ r)"
    by (simp add: first_end_def)
  from first_end_Seq[OF a "3"[of "c # pre"]] show ?case by simp
qed

lemma first_end_opt_take: "first_end r st = Some x \<Longrightarrow> first_end (opt r) st = Some x"
  by (auto simp: first_end_def opt_def split: list.splits)

lemma first_end_opt_skip: "ms r st = [] \<Longrightarrow> first_end (opt r) st = Some st"
  by (simp add: first_end_def opt_def)

lemma star_digits:
  "\<forall>c \<in> set ds. is_digit c \<Longrightarrow> rest = [] \<or> \<not> is_digit (hd rest) \<Longrightarrow>
     first_end (Star (Sat is_digit)) (pre, ds @ rest) = Some (rev ds @ pre, rest)"
proof (induction ds arbitrary: pre)
  case Nil
  then have "ms (Sat is_digit) (pre, rest) = []"
    by (cases rest) auto
  then show ?case by (simp add: first_end_def ms.simps(6))
next
  case (Cons d ds)
  then have d: "is_digit d" and rest: "\<forall>c \<in> set ds. is_digit c" by simp_all
  from Cons.IH[OF rest Cons.prems(2), of "d # pre"]
  obtain others where o: "ms (Star (Sat is_digit)) (d # pre, ds @ rest) =
      (rev ds @ d # pre, rest) # others"
    by (auto simp: first_end_def split: list.splits)
  have "ms (Star (Sat is_digit)) (pre, (d # ds) @ rest) =
      ms (Star (Sat is_digit)) (d # pre, ds @ rest) @ [(pre, (d # ds) @ rest)]"
    using d by (subst ms.simps(6)) simp
  with o show ?case by (simp add: first_end_def)
qed

lemma plus_digits:
  assumes "ds \<noteq> []" and "\<forall>c \<in> set ds. is_digit c" and "rest = [] \<or> \<not> is_digit (hd rest)"
  shows "first_end (plus (Sat is_digit)) (pre, ds @ rest) = Some (rev ds @ pre, rest)"
proof -
  from assms(1) obtain d ds' where ds: "ds = d # ds'" by (cases ds) auto
  with assms(2) have d: "is_digit d" and rest: "\<forall>c \<in> set ds'. is_digit c" by simp_all
  have a: "first_end (Sat is_digit) (pre, ds @ rest) = Some (d # pre, ds' @ rest)"
    using d by (simp add: first_end_def ds)
  from first_end_Seq[OF a star_digits[OF rest assms(3)]] show ?thesis
    by (simp add: plus_def ds)
qed

lemma chars_differ:
  "lower_char CHR ''>'' \<noteq> lower_char CHR ''.''"
  "lower_char CHR '','' \<noteq> lower_char CHR ''.''"
  "lower_char CHR '','' \<noteq> lower_char CHR ''>''"
  "\<not> is_digit CHR ''.''" "\<not> is_digit CHR ''>''" "\<not> is_digit CHR '',''"
  by code_simp+

lemma well_formed_match:
  assumes "num \<noteq> []" and "\<forall>c \<in> set num. is_digit c"
  shows "first_end correct_pattern (pre, canonical_text num eps comma) =
     Some (rev (canonical_text num eps comma) @ pre, [])"
proof -
  let ?C = "if comma then '','' else []"
  let ?E = "if eps then ''.eps'' else []"
  let ?p1 = "rev ''<<Eqn'' @ pre"
  let ?p2 = "rev num @ ?p1"
  let ?p3 = "rev ?E @ ?p2"
  let ?p4 = "rev ''>>'' @ ?p3"
  have s1: "first_end (lit ''<<Eqn'') (pre, ''<<Eqn'' @ num @ ?E @ ''>>'' @ ?C) =
      Some (?p1, num @ ?E @ ''>>'' @ ?C)"
    by (rule first_end_lit)
  have nd: "?E @ ''>>'' @ ?C = [] \<or> \<not> is_digit (hd (?E @ ''>>'' @ ?C))"
    by (simp add: chars_differ)
  have s2: "first_end (plus (Sat is_digit)) (?p1, num @ ?E @ ''>>'' @ ?C) =
      Some (?p2, ?E @ ''>>'' @ ?C)"
    by (rule plus_digits[OF assms nd])
  have s3: "first_end (opt (lit ''.eps'')) (?p2, ?E @ ''>>'' @ ?C) = Some (?p3, ''>>'' @ ?C)"
  proof (cases eps)
    case True
    from first_end_opt_take[OF first_end_lit[of "''.eps''" ?p2 "''>>'' @ ?C"]] True
    show ?thesis by simp
  next
    case False
    have "ms (lit ''.eps'') (?p2, ''>>'' @ ?C) = []"
      by (simp add: chars_differ)
    from first_end_opt_skip[OF this] False show ?thesis by simp
  qed
  have s4: "first_end (lit ''>>'') (?p3, ''>>'' @ ?C) = Some (?p4, ?C)"
    by (rule first_end_lit)
  have s5: "first_end (opt (lit '','')) (?p4, ?C) = Some (rev ?C @ ?p4, [])"
  proof (cases comma)
    case True
    from first_end_opt_take[OF first_end_lit[of "'',''" ?p4 "[]"]] True
    show ?thesis by simp
  next
    case False
    have "ms (lit '','') (?p4, []) = []" by simp
    from first_end_opt_skip[OF this] False show ?thesis by simp
  qed
  have "first_end correct_pattern (pre, ''<<Eqn'' @ num @ ?E @ ''>>'' @ ?C) =
      Some (rev ?C @ ?p4, [])"
    unfolding correct_pattern_def seqs.simps
    by (intro first_end_Seq[OF s1] first_end_Seq[OF s2] first_end_Seq[OF s3]
        first_end_Seq[OF s4] s5)
  then show ?thesis by (simp add: canonical_text_def)
qed

lemma scan_single:
  assumes "first_end r ([], s) = Some (rev s, [])" and "s \<noteq> []" and "ms r (rev s, []) = []"
  shows "re_finditer r s = [(0, length s, s)]"
proof -
  have stop: "scan r False (rev s) [] [] = ([], [])"
    using assms(3) by (simp add: scan.simps first_match_def)
  have "scan r False [] [] s = ([([], s)], [])"
    using assms(1,2) stop
    by (simp add: scan.simps[of r False "[]" "[]" s] first_match_first_end)
  then show ?thesis by (simp add: re_finditer_def segments_def)
qed

lemma well_formed_scanned:
  assumes "num \<noteq> []" and "\<forall>c \<in> set num. is_digit c"
  shows "re_finditer correct_pattern (canonical_text num eps comma) =
     [(0, length (canonical_text num eps comma), canonical_text num eps comma)]"
proof (rule scan_single)
  show "first_end correct_pattern ([], canonical_text num eps comma) =
      Some (rev (canonical_text num eps comma), [])"
    using well_formed_match[OF assms, of "[]" eps comma] by simp
  show "canonical_text num eps comma \<noteq> []"
    by (simp add: canonical_text_def)
  show "ms correct_pattern (rev (canonical_text num eps comma), []) = []"
    by (simp add: correct_pattern_def)
qed

lemma star_sat_consumed:
  "(p', r') \<in> set (ms (Star (Sat P)) (p, r)) \<Longrightarrow> \<exists>m. r = m @ r' \<and> (\<forall>c \<in> set m. P c)"
proof (induction r arbitrary: p)
  case Nil
  have "ms (Star (Sat P)) (p, []) = [(p, [])]"
    by (subst ms.simps(6)) simp
  with Nil show ?case by simp
next
  case (Cons x xs)
  show ?case
  proof (cases "P x")
    case True
    have "ms (Star (Sat P)) (p, x # xs) = ms (Star (Sat P)) (x # p, xs) @ [(p, x # xs)]"
      using True by (subst ms.simps(6)) simp
    with Cons.prems have "(p', r') \<in> set (ms (Star (Sat P)) (x # p, xs)) \<or> r' = x # xs"
      by auto
    then show ?thesis
    proof
      assume "(p', r') \<in> set (ms (Star (Sat P)) (x # p, xs))"
      from Cons.IH[OF this] obtain m where "xs = m @ r'" "\<forall>c \<in> set m. P c" by blast
      with True have "x # xs = (x # m) @ r' \<and> (\<forall>c \<in> set (x # m). P c)" by simp
      then show ?thesis by blast
    next
      assume "r' = x # xs"
      then have "x # xs = [] @ r' \<and> (\<forall>c \<in> set []. P c)" by simp
      then show ?thesis by blast
    qed
  next
    case False
    have "ms (Star (Sat P)) (p, x # xs) = [(p, x # xs)]"
      using False by (subst ms.simps(6)) simp
    with Cons.prems have "x # xs = [] @ r' \<and> (\<forall>c \<in> set []. P c)" by simp
    then show ?thesis by blast
  qed
qed

lemma eqn_number_shape:
  assumes "(p', r') \<in> set (ms eqn_number_pattern (p, r))"
  shows "\<exists>a b c ds. r = a # b # c # ds @ r' \<and> ds \<noteq> [] \<and> (\<forall>d \<in> set ds. is_digit d)"
proof -
  from assms obtain a b c d rest where r: "r = a # b # c # d # rest" and d: "is_digit d"
    and star: "(p', r') \<in> set (ms (Star (Sat is_digit)) (d # c # b # a # p, rest))"
    by (auto simp: eqn_number_pattern_def plus_def split: list.splits if_splits)
  from star_sat_consumed[OF star] obtain m where m: "rest = m @ r'" "\<forall>c \<in> set m. is_digit c"
    by blast
  with r d have "r = a # b # c # (d # m) @ r' \<and> d # m \<noteq> [] \<and> (\<forall>x \<in> set (d # m). is_digit x)"
    by simp
  then show ?thesis by blast
qed

lemma scan_first:
  "scan r adv pre gap rest = ((g, m) # segs, tail) \<Longrightarrow>
     \<exists>p0 r0 p' r'. (p', r') \<in> set (ms r (p0, r0)) \<and> r0 = m @ r'"
proof (induction r adv pre gap rest arbitrary: g m segs tail rule: scan.induct)
  case (1 r adv pre gap rest)
  show ?case
  proof (cases "first_match r adv (pre, rest)")
    case None
    show ?thesis
    proof (cases rest)
      case Nil
      with None "1.prems" show ?thesis by (simp add: scan.simps)
    next
      case (Cons x xs)
      with None "1.prems" have "scan r False (x # pre) (x # gap) xs = ((g, m) # segs, tail)"
        by (simp add: scan.simps)
      from "1.IH"(1)[OF None Cons this] show ?thesis .
    qed
  next
    case (Some c)
    obtain pre' rest' where c: "c = (pre', rest')" by (cases c)
    from first_match_consumes[of r adv pre rest pre' rest'] Some c
    obtain m0 where m0: "rest = m0 @ rest'" by auto
    from find_Some_mem[OF Some[unfolded first_match_def]] c
    have mem: "(pre', rest') \<in> set (ms r (pre, rest))" by simp
    obtain segs' tail' where rec: "scan r (m0 = []) pre' [] rest' = (segs', tail')"
      by (cases "scan r (m0 = []) pre' [] rest'")
    have tk: "take (length rest - length rest') rest = m0" using m0 by simp
    have "scan r adv pre gap rest = ((rev gap, m0) # segs', tail')"
      by (simp only: scan.simps[of r adv pre gap rest] Some c option.case prod.case
          Let_def tk rec)
    with "1.prems" have "m = m0" by simp
    with mem m0 show ?thesis by blast
  qed
qed

lemma re_search_number:
  assumes "re_search eqn_number_pattern original = Some eqn_match"
  shows "\<exists>a b c ds. eqn_match = a # b # c # ds \<and> ds \<noteq> [] \<and> (\<forall>d \<in> set ds. is_digit d)"
proof -
  obtain all_segs tail where
    sc: "scan eqn_number_pattern False [] [] original = (all_segs, tail)"
    by (cases "scan eqn_number_pattern False [] [] original")
  with assms obtain g segs where "all_segs = (g, eqn_match) # segs"
    by (auto simp: re_search_def segments_def split: list.splits)
  with sc have "scan eqn_number_pattern False [] [] original = ((g, eqn_match) # segs, tail)"
    by simp
  from scan_first[OF this] obtain p0 r0 p' r' where
    mem: "(p', r') \<in> set (ms eqn_number_pattern (p0, r0))" and r0: "r0 = eqn_match @ r'"
    by blast
  from eqn_number_shape[OF mem] obtain a b c ds where
    sh: "r0 = a # b # c # ds @ r'" "ds \<noteq> []" "\<forall>d \<in> set ds. is_digit d"
    by blast
  from r0 sh(1) have "eqn_match = a # b # c # ds" by simp
  with sh show ?thesis by blast
qed

lemma patterns_equal: "pattern_placeholder = correct_pattern"
  by (simp add: pattern_placeholder_def correct_pattern_def)

lemma batch_repair_well_formed:
  assumes "re_search eqn_number_pattern original = Some eqn_match"
  shows "fst (fix_placeholder para_info fixes original) = original
     \<or> (fst (fix_placeholder para_info fixes original) =
          canonical_text (drop 3 eqn_match) (contains ''.eps'' (lower original))
            (endswith original '','')
        \<and> re_finditer pattern_placeholder (fst (fix_placeholder para_info fixes original)) =
          [(0, length (fst (fix_placeholder para_info fixes original)),
            fst (fix_placeholder para_info fixes original))])"
proof -
  from re_search_number[OF assms] obtain a b c ds where
    sh: "eqn_match = a # b # c # ds" "ds \<noteq> []" "\<forall>d \<in> set ds. is_digit d"
    by blast
  let ?fixed = "canonical_text ds (contains ''.eps'' (lower original)) (endswith original '','')"
  have cases: "fst (fix_placeholder para_info fixes original) = original
      \<or> fst (fix_placeholder para_info fixes original) = ?fixed"
    by (simp add: fix_placeholder_def assms sh(1) canonical_text_def Let_def)
  from well_formed_scanned[OF sh(2,3)]
  have "re_finditer pattern_placeholder ?fixed = [(0, length ?fixed, ?fixed)]"
    by (simp add: patterns_equal)
  with cases sh(1) show ?thesis by auto
qed

lemma digit_chars:
  "\<forall>d \<in> set ''0123456789''. lower_char d \<noteq> lower_char CHR ''.''
     \<and> lower_char d \<noteq> lower_char CHR ''>'' \<and> lower_char d \<noteq> lower_char CHR ''<''"
  by code_simp

lemma digit_differs:
  assumes "is_digit d"
  shows "lower_char d \<noteq> lower_char CHR ''.''" and "lower_char d \<noteq> lower_char CHR ''>''"
    and "lower_char d \<noteq> lower_char CHR ''<''"
  using assms digit_chars unfolding is_digit_def by blast+

lemma more_chars_differ:
  "lower_char CHR ''E'' \<noteq> lower_char CHR ''<''"
  "\<forall>c \<in> set ''Eqn.eps,>''. lower_char c \<noteq> lower_char CHR ''<''"
  "lower_char CHR ''.'' \<noteq> lower_char CHR ''>''"
  by code_simp+

lemma digits_prefix:
  assumes "ds @ t = m @ r'" and "\<forall>c \<in> set m. is_digit c" and "t \<noteq> []" and "\<not> is_digit (hd t)"
  shows "\<exists>ds2. r' = ds2 @ t \<and> ds = m @ ds2"
proof -
  from assms(1) obtain us where
    "(ds = m @ us \<and> us @ t = r') \<or> (ds @ us = m \<and> t = us @ r')"
    by (auto simp: append_eq_append_conv2)
  then show ?thesis
  proof
    assume "ds = m @ us \<and> us @ t = r'"
    then show ?thesis by blast
  next
    assume h: "ds @ us = m \<and> t = us @ r'"
    have "us = []"
    proof (rule ccontr)
      assume "us \<noteq> []"
      with h have "hd t = hd us" and "hd us \<in> set m" by auto
      with assms(2,4) show False by auto
    qed
    with h have "r' = [] @ t \<and> ds = m @ []" by simp
    then show ?thesis by blast
  qed
qed

lemma after_number_fails:
  assumes "\<forall>c \<in> set ds2. is_digit c"
  shows "ms (Seq (opt (lit ''.eps'')) (Seq (lit ''>>'') (opt (lit '','')))) 
           (p, ds2 @ (if eps then ''.eps'' else []) @ '',>>'') = []"
proof (cases ds2)
  case Nil
  then show ?thesis
    by (simp add: opt_def chars_differ more_chars_differ)
next
  case (Cons d ds3)
  with assms have "is_digit d" by simp
  from digit_differs[OF this] Cons show ?thesis
    by (simp add: opt_def)
qed

lemma comma_inside_no_match_at_start:
  assumes "ds \<noteq> []" and "\<forall>c \<in> set ds. is_digit c"
  shows "ms correct_pattern (pre, comma_inside ds eps) = []"
proof -
  let ?t = "(if eps then ''.eps'' else []) @ '',>>''"
  let ?p1 = "rev ''<<Eqn'' @ pre"
  let ?R2 = "Seq (opt (lit ''.eps'')) (Seq (lit ''>>'') (opt (lit '','')))"
  have t: "?t \<noteq> []" "\<not> is_digit (hd ?t)"
    by (simp_all add: chars_differ)
  have all: "\<forall>st \<in> set (ms (plus (Sat is_digit)) (?p1, ds @ ?t)). ms ?R2 st = []"
  proof
    fix st
    assume st: "st \<in> set (ms (plus (Sat is_digit)) (?p1, ds @ ?t))"
    obtain p' r' where pr: "st = (p', r')" by (cases st)
    from assms(1) obtain d ds' where ds: "ds = d # ds'" by (cases ds) auto
    with assms(2) have d: "is_digit d" by simp
    from st pr ds d have "(p', r') \<in> set (ms (Star (Sat is_digit)) (d # ?p1, ds' @ ?t))"
      by (simp add: plus_def)
    from star_sat_consumed[OF this] obtain m where
      m: "ds' @ ?t = m @ r'" "\<forall>c \<in> set m. is_digit c"
      by blast
    from digits_prefix[OF m t] obtain ds2 where ds2: "r' = ds2 @ ?t" "ds' = m @ ds2"
      by blast
    with assms(2) ds have "\<forall>c \<in> set ds2. is_digit c" by simp
    from after_number_fails[OF this, of p' eps] ds2(1) pr show "ms ?R2 st = []"
      by simp
  qed
  have "ms correct_pattern (pre, ''<<Eqn'' @ ds @ ?t) =
      concat (map (ms ?R2) (ms (plus (Sat is_digit)) (?p1, ds @ ?t)))"
    by (simp add: correct_pattern_def)
  also have "\<dots> = []"
    using all by simp
  finally show ?thesis by (simp add: comma_inside_def)
qed

lemma scan_skip:
  "ms r (pre, x # xs) = [] \<Longrightarrow>
     scan r False pre gap (x # xs) = scan r False (x # pre) (x # gap) xs"
  by (simp add: scan.simps[of r False pre gap "x # xs"] first_match_def)

lemma scan_without_bracket:
  "\<forall>c \<in> set s. lower_char c \<noteq> lower_char CHR ''<'' \<Longrightarrow>
     scan correct_pattern False pre gap s = ([], rev gap @ s)"
proof (induction s arbitrary: pre gap)
  case Nil
  have "ms correct_pattern (pre, []) = []" by (simp add: correct_pattern_def)
  then show ?case by (simp add: scan.simps first_match_def)
next
  case (Cons x xs)
  then have "ms correct_pattern (pre, x # xs) = []" by (simp add: correct_pattern_def)
  then have "scan correct_pattern False pre gap (x # xs) =
      scan correct_pattern False (x # pre) (x # gap) xs"
    by (simp add: scan.simps[of correct_pattern False pre gap "x # xs"] first_match_def)
  with Cons show ?case by simp
qed

lemma comma_inside_not_well_formed:
  assumes "ds \<noteq> []" and "\<forall>c \<in> set ds. is_digit c"
  shows "re_finditer correct_pattern (comma_inside ds eps) = []"
proof -
  let ?body = "''Eqn'' @ ds @ (if eps then ''.eps'' else []) @ '',>>''"
  have whole: "comma_inside ds eps = CHR ''<'' # CHR ''<'' # ?body"
    by (simp add: comma_inside_def)
  have at0: "ms correct_pattern ([], CHR ''<'' # CHR ''<'' # ?body) = []"
    using comma_inside_no_match_at_start[OF assms, of "[]" eps] by (simp add: whole)
  have at1: "ms correct_pattern ([CHR ''<''], CHR ''<'' # ?body) = []"
    by (simp add: correct_pattern_def more_chars_differ)
  have body: "\<forall>c \<in> set ?body. lower_char c \<noteq> lower_char CHR ''<''"
    using assms(2) digit_differs(3) more_chars_differ(2) by auto
  have "scan correct_pattern False [] [] (CHR ''<'' # CHR ''<'' # ?body) =
      scan correct_pattern False [CHR ''<''] [CHR ''<''] (CHR ''<'' # ?body)"
    by (rule scan_skip[OF at0])
  also have "\<dots> = scan correct_pattern False [CHR ''<'', CHR ''<''] [CHR ''<'', CHR ''<''] ?body"
    by (rule scan_skip[OF at1])
  also have "\<dots> = ([], rev [CHR ''<'', CHR ''<''] @ ?body)"
    by (rule scan_without_bracket[OF body])
  finally show ?thesis
    by (simp add: re_finditer_def segments_def whole)
qed

lemma v4_repair_well_formed_iff:
  assumes "fix_damaged original = Some fixed"
  shows "re_finditer correct_pattern fixed =
     (if endswith original '','' then [] else [(0, length fixed, fixed)])"
proof -
  from assms obtain eqn_match where em: "re_search eqn_number_pattern original = Some eqn_match"
    by (auto simp: fix_damaged_def split: option.splits)
  from re_search_number[OF em] obtain a b c ds where
    sh: "eqn_match = a # b # c # ds" "ds \<noteq> []" "\<forall>d \<in> set ds. is_digit d"
    by blast
  let ?eps = "contains ''.eps'' (lower original)"
  show ?thesis
  proof (cases "endswith original '',''")
    case True
    with assms em sh(1) have "fixed = comma_inside ds ?eps"
      by (auto simp: fix_damaged_def comma_inside_def Let_def)
    with comma_inside_not_well_formed[OF sh(2,3)] True show ?thesis by simp
  next
    case False
    with assms em sh(1) have "fixed = canonical_text ds ?eps False"
      by (auto simp: fix_damaged_def canonical_text_def Let_def)
    with well_formed_scanned[OF sh(2,3)] False show ?thesis by simp
  qed
qed

text \<open>
  C4. Wherever the number pattern \<open>Eqn(\d+)\<close> finds a number in a damaged
  occurrence, the repair of v4 builds the canonical text with that number and with
  \<open>.eps\<close> if the occurrence contains it, which scans as one well-formed occurrence,
  as long as the occurrence has no trailing comma. With a trailing comma it puts
  the comma inside the brackets, and the text it returns has no well-formed match
  at all. The repair of the batch script, whenever it changes the text, returns the
  canonical text with the number, with \<open>.eps\<close> and with the trailing comma of the
  occurrence, and that text scans as one well-formed occurrence.
\<close>

theorem repaired_text_rescanned:
  "(re_search eqn_number_pattern original = Some eqn_match \<longrightarrow>
      fix_damaged original =
        Some (if endswith original '',''
              then comma_inside (drop 3 eqn_match) (contains ''.eps'' (lower original))
              else canonical_text (drop 3 eqn_match) (contains ''.eps'' (lower original)) False)
      \<and> re_finditer correct_pattern
            (comma_inside (drop 3 eqn_match) (contains ''.eps'' (lower original))) = []
      \<and> re_finditer correct_pattern
            (canonical_text (drop 3 eqn_match) (contains ''.eps'' (lower original)) False) =
          [(0, length (canonical_text (drop 3 eqn_match)
                  (contains ''.eps'' (lower original)) False),
            canonical_text (drop 3 eqn_match) (contains ''.eps'' (lower original)) False)])
   \<and> (re_search eqn_number_pattern original = Some eqn_match \<longrightarrow>
      fst (fix_placeholder para_info fixes original) = original
      \<or> (fst (fix_placeholder para_info fixes original) =
            canonical_text (drop 3 eqn_match) (contains ''.eps'' (lower original))
              (endswith original '','')
          \<and> re_finditer pattern_placeholder (fst (fix_placeholder para_info fixes original)) =
            [(0, length (fst (fix_placeholder para_info fixes original)),
              fst (fix_placeholder para_info fixes original))]))"
proof (intro conjI impI)
  assume em: "re_search eqn_number_pattern original = Some eqn_match"
  from re_search_number[OF em] obtain a b c ds where
    sh: "eqn_match = a # b # c # ds" "ds \<noteq> []" "\<forall>d \<in> set ds. is_digit d"
    by blast
  show "fix_damaged original =
      Some (if endswith original '',''
            then comma_inside (drop 3 eqn_match) (contains ''.eps'' (lower original))
            else canonical_text (drop 3 eqn_match) (contains ''.eps'' (lower original)) False)"
    by (simp add: fix_damaged_def em sh(1) comma_inside_def canonical_text_def Let_def)
  from comma_inside_not_well_formed[OF sh(2,3)] sh(1)
  show "re_finditer correct_pattern
      (comma_inside (drop 3 eqn_match) (contains ''.eps'' (lower original))) = []"
    by simp
  from well_formed_scanned[OF sh(2,3)] sh(1)
  show "re_finditer correct_pattern
      (canonical_text (drop 3 eqn_match) (contains ''.eps'' (lower original)) False) =
      [(0, length (canonical_text (drop 3 eqn_match)
              (contains ''.eps'' (lower original)) False),
        canonical_text (drop 3 eqn_match) (contains ''.eps'' (lower original)) False)]"
    by simp
next
  assume em: "re_search eqn_number_pattern original = Some eqn_match"
  from batch_repair_well_formed[OF em]
  show "fst (fix_placeholder para_info fixes original) = original
      \<or> (fst (fix_placeholder para_info fixes original) =
            canonical_text (drop 3 eqn_match) (contains ''.eps'' (lower original))
              (endswith original '','')
          \<and> re_finditer pattern_placeholder (fst (fix_placeholder para_info fixes original)) =
            [(0, length (fst (fix_placeholder para_info fixes original)),
              fst (fix_placeholder para_info fixes original))])" .
qed

lemma repair_example:
  "re_search eqn_number_pattern ''Eqn5>>,'' = Some ''Eqn5''
   \<and> endswith ''Eqn5>>,'' '',''
   \<and> comma_inside (drop 3 ''Eqn5'') (contains ''.eps'' (lower ''Eqn5>>,'')) = ''<<Eqn5,>>''
   \<and> extract_from_text ''Eqn5>>,'' = [''<<Eqn5,>>'']
   \<and> found_placeholders ''<<Eqn5,>>'' = [(0, 6, ''<<Eqn5>>'')]
   \<and> fst (fix_placeholder ''paragraph 1'' [] ''Eqn5>>,'') = ''<<Eqn5>>,''"
  by code_simp

theorem repaired_text_rescanned_witness:
  "re_search eqn_number_pattern ''Eqn5>>,'' = Some ''Eqn5''
   \<and> fix_damaged ''Eqn5>>,'' = Some ''<<Eqn5,>>''
   \<and> re_finditer correct_pattern ''<<Eqn5,>>'' = []
   \<and> extract_from_text ''Eqn5>>,'' = [''<<Eqn5,>>'']
   \<and> found_placeholders ''<<Eqn5,>>'' = [(0, 6, ''<<Eqn5>>'')]
   \<and> fst (fix_placeholder ''paragraph 1'' [] ''Eqn5>>,'') = ''<<Eqn5>>,''
   \<and> re_finditer pattern_placeholder ''<<Eqn5>>,'' = [(0, 9, ''<<Eqn5>>,'')]"
proof -
  note t = repaired_text_rescanned[of "''Eqn5>>,''" "''Eqn5''" "''paragraph 1''" "[]"]
  note e = repair_example
  from e have em: "re_search eqn_number_pattern ''Eqn5>>,'' = Some ''Eqn5''" by blast
  from t em have "fix_damaged ''Eqn5>>,'' =
      Some (if endswith ''Eqn5>>,'' '',''
            then comma_inside (drop 3 ''Eqn5'') (contains ''.eps'' (lower ''Eqn5>>,''))
            else canonical_text (drop 3 ''Eqn5'') (contains ''.eps'' (lower ''Eqn5>>,'')) False)"
    by blast
  with e have r1: "fix_damaged ''Eqn5>>,'' = Some ''<<Eqn5,>>''" by simp
  from t em have "re_finditer correct_pattern
      (comma_inside (drop 3 ''Eqn5'') (contains ''.eps'' (lower ''Eqn5>>,''))) = []"
    by blast
  with e have r2: "re_finditer correct_pattern ''<<Eqn5,>>'' = []" by simp
  from t em have "fst (fix_placeholder ''paragraph 1'' [] ''Eqn5>>,'') = ''Eqn5>>,''
      \<or> re_finditer pattern_placeholder (fst (fix_placeholder ''paragraph 1'' [] ''Eqn5>>,'')) =
        [(0, length (fst (fix_placeholder ''paragraph 1'' [] ''Eqn5>>,'')),
          fst (fix_placeholder ''paragraph 1'' [] ''Eqn5>>,''))]"
    by blast
  with e have r3: "re_finditer pattern_placeholder ''<<Eqn5>>,'' = [(0, 9, ''<<Eqn5>>,'')]"
    by simp
  from e r1 r2 r3 show ?thesis by blast
qed

end
